theory Spec2Isabelle
  imports Main "HOL-Library.AList" "HOL-Library.Word"
begin

section \<open>The caches of mempool/cat/cache.go\<close>

text \<open>
  The file defines three independent structures: \<open>LRUTxCache\<close> (the dedup cache),
  \<open>EvictedTxCache\<close> (the eviction-history cache) and \<open>SeenTxSet\<close> (the seen-set).
  Every method takes the structure's mutex for its whole body, so the methods of one
  structure are serialised; a method is modelled as a function from the state before
  the call to the state after it (and the returned value, where there is one).

  \<open>types.TxKey\<close> is declared outside this file (a fixed-size byte array compared
  bytewise); the caches only use it as a map key, so it is the type parameter \<open>'k\<close>.
  A \<open>time.Time\<close> is an instant of the wall clock, modelled as an integer count of
  clock ticks; \<open>a.Before(b)\<close> is \<open>a < b\<close>. A reading of \<open>time.Now().UTC()\<close> is an
  argument of the method that takes it.
\<close>

type_synonym time = int

subsection \<open>LRUTxCache\<close>

text \<open>
  \<open>container/list\<close> is a doubly linked list and \<open>cacheMap\<close> maps a key to its list
  element. An element is identified here by the key stored in its \<open>Value\<close> field: the list
  is the sequence of these values from front to back, and \<open>cacheMap\<close> maps a key to the
  element holding it. \<open>Push\<close> creates an element only for a key that \<open>cacheMap\<close> does not
  hold, so no two elements of the list hold the same key (\<open>lru_wf\<close> below, proved for
  every reachable state).
\<close>

record 'k LRUTxCache =
  lru_staticSize :: int
  lru_cacheMap :: "'k \<rightharpoonup> 'k"
  lru_list :: "'k list"

text \<open>\<open>l.MoveToBack(e)\<close>: nothing happens unless \<open>e\<close> is an element of \<open>l\<close>.\<close>

definition list_MoveToBack :: "'k list \<Rightarrow> 'k \<Rightarrow> 'k list" where
  "list_MoveToBack l e = (if e \<in> set l then remove1 e l @ [e] else l)"

text \<open>\<open>l.Remove(e)\<close>: nothing happens unless \<open>e\<close> is an element of \<open>l\<close>.\<close>

definition list_Remove :: "'k list \<Rightarrow> 'k \<Rightarrow> 'k list" where
  "list_Remove l e = remove1 e l"

definition NewLRUTxCache :: "int \<Rightarrow> 'k LRUTxCache" where
  "NewLRUTxCache cacheSize =
     \<lparr>lru_staticSize = cacheSize, lru_cacheMap = Map.empty, lru_list = []\<rparr>"

definition LRUTxCache_Reset :: "'k LRUTxCache \<Rightarrow> 'k LRUTxCache" where
  "LRUTxCache_Reset c = c\<lparr>lru_cacheMap := Map.empty, lru_list := []\<rparr>"

definition LRUTxCache_Push :: "'k LRUTxCache \<Rightarrow> 'k \<Rightarrow> bool \<times> 'k LRUTxCache" where
  "LRUTxCache_Push c txKey =
     (if lru_staticSize c = 0 then (True, c)
      else case lru_cacheMap c txKey of
        Some moved \<Rightarrow> (False, c\<lparr>lru_list := list_MoveToBack (lru_list c) moved\<rparr>)
      | None \<Rightarrow>
          (let c1 =
             (if lru_staticSize c \<le> int (length (lru_list c)) then
                (case lru_list c of
                   [] \<Rightarrow> c
                 | frontKey # _ \<Rightarrow>
                     c\<lparr>lru_cacheMap := (lru_cacheMap c)(frontKey := None),
                       lru_list := list_Remove (lru_list c) frontKey\<rparr>)
              else c)
           in (True, c1\<lparr>lru_list := lru_list c1 @ [txKey],
                        lru_cacheMap := (lru_cacheMap c1)(txKey \<mapsto> txKey)\<rparr>)))"

definition LRUTxCache_Remove :: "'k LRUTxCache \<Rightarrow> 'k \<Rightarrow> 'k LRUTxCache" where
  "LRUTxCache_Remove c txKey =
     (let e = lru_cacheMap c txKey;
          c1 = c\<lparr>lru_cacheMap := (lru_cacheMap c)(txKey := None)\<rparr>
      in case e of
           None \<Rightarrow> c1
         | Some el \<Rightarrow> c1\<lparr>lru_list := list_Remove (lru_list c1) el\<rparr>)"

definition LRUTxCache_Has :: "'k LRUTxCache \<Rightarrow> 'k \<Rightarrow> bool" where
  "LRUTxCache_Has c txKey =
     (if lru_staticSize c = 0 then False else lru_cacheMap c txKey \<noteq> None)"

text \<open>A sequence of calls on one cache; the values \<open>Push\<close> returns are dropped.\<close>

datatype 'k lru_call = LRU_Push 'k | LRU_Remove 'k | LRU_Reset

fun lru_step :: "'k LRUTxCache \<Rightarrow> 'k lru_call \<Rightarrow> 'k LRUTxCache" where
  "lru_step c (LRU_Push k) = snd (LRUTxCache_Push c k)"
| "lru_step c (LRU_Remove k) = LRUTxCache_Remove c k"
| "lru_step c LRU_Reset = LRUTxCache_Reset c"

definition lru_calls :: "'k LRUTxCache \<Rightarrow> 'k lru_call list \<Rightarrow> 'k LRUTxCache" where
  "lru_calls c cs = foldl lru_step c cs"

definition lru_pushes :: "'k LRUTxCache \<Rightarrow> 'k list \<Rightarrow> 'k LRUTxCache" where
  "lru_pushes c ks = lru_calls c (map LRU_Push ks)"

text \<open>
  The link between the two fields: the list holds no key twice, and \<open>cacheMap\<close> holds
  exactly the keys of the list, each mapped to its own element.
\<close>

definition lru_wf :: "'k LRUTxCache \<Rightarrow> bool" where
  "lru_wf c \<longleftrightarrow>
     distinct (lru_list c) \<and>
     (\<forall>k. lru_cacheMap c k = (if k \<in> set (lru_list c) then Some k else None))"

subsection \<open>Ranging over a Go map\<close>

text \<open>
  A Go map is an association list without repeated keys: \<open>m[k] = v\<close> is
  \<open>AList.update k v m\<close>, \<open>delete(m, k)\<close> is \<open>AList.delete k m\<close>, a lookup is
  \<open>map_of m k\<close> and \<open>len(m)\<close> is \<open>length m\<close>. The position of an entry in the list
  has no meaning: the order in which \<open>for k, v := range m\<close> visits the entries is chosen
  by the runtime. That choice is the argument \<open>ord\<close> of every method with such a loop:
  an enumeration of keys, and the loop visits the entries of \<open>m\<close> in the order in which
  their keys occur in \<open>ord\<close>. Every order the runtime can choose is given by an \<open>ord\<close>
  with \<open>range_order ord m\<close>.
\<close>

definition go_range :: "'a list \<Rightarrow> ('a \<times> 'b) list \<Rightarrow> ('a \<times> 'b) list" where
  "go_range ord m =
     concat (map (\<lambda>k. case map_of m k of None \<Rightarrow> [] | Some v \<Rightarrow> [(k, v)]) ord)"

definition range_order :: "'a list \<Rightarrow> ('a \<times> 'b) list \<Rightarrow> bool" where
  "range_order ord m \<longleftrightarrow> distinct ord \<and> fst ` set m \<subseteq> set ord"

subsection \<open>EvictedTxCache\<close>

text \<open>
  Modelled from the spec: \<open>wrappedTx\<close> is declared outside this file. \<open>Push\<close> reads its
  fields \<open>key\<close>, \<open>priority\<close>, \<open>gasWanted\<close>, \<open>sender\<close> and the result of its method
  \<open>size()\<close>; the spec describes it as a read-only view of a transaction's metadata
  exposing the identifying key, priority (signed integer), gas-wanted (signed integer),
  sender (opaque string identifier) and size in bytes (integer). \<open>wtx_size\<close> is what
  \<open>wtx.size()\<close> returns. An \<open>int64\<close> is a 64-bit word; \<open>Push\<close> only copies these
  values.
\<close>

record 'k wrappedTx =
  wtx_key :: 'k
  wtx_priority :: "64 word"
  wtx_gasWanted :: "64 word"
  wtx_sender :: string
  wtx_size :: "64 word"

record EvictedTxInfo =
  timeEvicted :: time
  priority :: "64 word"
  gasWanted :: "64 word"
  sender :: string
  size_info :: "64 word"

record 'k EvictedTxCache =
  ev_staticSize :: int
  ev_cache :: "('k \<times> EvictedTxInfo) list"

definition NewEvictedTxCache :: "int \<Rightarrow> 'k EvictedTxCache" where
  "NewEvictedTxCache sz = \<lparr>ev_staticSize = sz, ev_cache = []\<rparr>"

definition EvictedTxCache_Has :: "'k EvictedTxCache \<Rightarrow> 'k \<Rightarrow> bool" where
  "EvictedTxCache_Has c txKey = (map_of (ev_cache c) txKey \<noteq> None)"

definition EvictedTxCache_Get :: "'k EvictedTxCache \<Rightarrow> 'k \<Rightarrow> EvictedTxInfo option" where
  "EvictedTxCache_Get c txKey = map_of (ev_cache c) txKey"

text \<open>One round of the loop of \<open>Push\<close> that looks for the oldest entry.\<close>

fun oldest_step :: "'k \<times> time \<Rightarrow> 'k \<times> EvictedTxInfo \<Rightarrow> 'k \<times> time" where
  "oldest_step (oldestTxKey, oldestTxTime) (key, info) =
     (if timeEvicted info < oldestTxTime then (key, timeEvicted info)
      else (oldestTxKey, oldestTxTime))"

text \<open>
  \<open>Push\<close> reads the clock twice: \<open>now1\<close> is the reading stored in the new record,
  \<open>now2\<close> the one the search for the oldest entry starts from. \<open>new_EvictedTxInfo\<close> is
  the struct that \<open>Push\<close> builds and \<open>Push_store\<close> the first statement of \<open>Push\<close>, the
  assignment \<open>c.cache[wtx.key] = &EvictedTxInfo{...}\<close>.
\<close>

definition new_EvictedTxInfo :: "'k wrappedTx \<Rightarrow> time \<Rightarrow> EvictedTxInfo" where
  "new_EvictedTxInfo wtx now1 =
     \<lparr>timeEvicted = now1, priority = wtx_priority wtx, gasWanted = wtx_gasWanted wtx,
      sender = wtx_sender wtx, size_info = wtx_size wtx\<rparr>"

definition EvictedTxCache_Push_store ::
  "'k EvictedTxCache \<Rightarrow> 'k wrappedTx \<Rightarrow> time \<Rightarrow> 'k EvictedTxCache" where
  "EvictedTxCache_Push_store c wtx now1 =
     c\<lparr>ev_cache := AList.update (wtx_key wtx) (new_EvictedTxInfo wtx now1) (ev_cache c)\<rparr>"

definition EvictedTxCache_Push ::
  "'k EvictedTxCache \<Rightarrow> 'k wrappedTx \<Rightarrow> time \<Rightarrow> time \<Rightarrow> 'k list \<Rightarrow> 'k EvictedTxCache" where
  "EvictedTxCache_Push c wtx now1 now2 ord =
     (let c1 = EvictedTxCache_Push_store c wtx now1
      in if ev_staticSize c1 < int (length (ev_cache c1)) then
           (let oldest = foldl oldest_step (wtx_key wtx, now2) (go_range ord (ev_cache c1))
            in c1\<lparr>ev_cache := AList.delete (fst oldest) (ev_cache c1)\<rparr>)
         else c1)"

definition EvictedTxCache_Pop ::
  "'k EvictedTxCache \<Rightarrow> 'k \<Rightarrow> EvictedTxInfo option \<times> 'k EvictedTxCache" where
  "EvictedTxCache_Pop c txKey =
     (case map_of (ev_cache c) txKey of
        None \<Rightarrow> (None, c)
      | Some info \<Rightarrow> (Some info, c\<lparr>ev_cache := AList.delete txKey (ev_cache c)\<rparr>))"

text \<open>One round of the loop of \<open>Prune\<close>, on the map.\<close>

fun prune_step ::
  "time \<Rightarrow> ('k \<times> EvictedTxInfo) list \<Rightarrow> 'k \<times> EvictedTxInfo \<Rightarrow> ('k \<times> EvictedTxInfo) list" where
  "prune_step limit m (key, info) =
     (if timeEvicted info < limit then AList.delete key m else m)"

definition EvictedTxCache_Prune ::
  "'k EvictedTxCache \<Rightarrow> time \<Rightarrow> 'k list \<Rightarrow> 'k EvictedTxCache" where
  "EvictedTxCache_Prune c limit ord =
     c\<lparr>ev_cache := foldl (prune_step limit) (ev_cache c) (go_range ord (ev_cache c))\<rparr>"

definition EvictedTxCache_Reset :: "'k EvictedTxCache \<Rightarrow> 'k EvictedTxCache" where
  "EvictedTxCache_Reset c = c\<lparr>ev_cache := []\<rparr>"

text \<open>A sequence of calls on one cache; what \<open>Pop\<close> returns is dropped.\<close>

datatype 'k ev_call =
    EV_Push "'k wrappedTx" time time "'k list"
  | EV_Pop 'k
  | EV_Prune time "'k list"
  | EV_Reset

fun ev_step :: "'k EvictedTxCache \<Rightarrow> 'k ev_call \<Rightarrow> 'k EvictedTxCache" where
  "ev_step c (EV_Push wtx now1 now2 ord) = EvictedTxCache_Push c wtx now1 now2 ord"
| "ev_step c (EV_Pop k) = snd (EvictedTxCache_Pop c k)"
| "ev_step c (EV_Prune limit ord) = EvictedTxCache_Prune c limit ord"
| "ev_step c EV_Reset = EvictedTxCache_Reset c"

definition ev_calls :: "'k EvictedTxCache \<Rightarrow> 'k ev_call list \<Rightarrow> 'k EvictedTxCache" where
  "ev_calls c cs = foldl ev_step c cs"

text \<open>
  A sequence of \<open>Push\<close> calls, each given by the transaction pushed, the two readings of
  the clock and the order of the range loop; \<open>ev_entry\<close> is the map entry the call stores.
\<close>

type_synonym 'k ev_push = "'k wrappedTx \<times> time \<times> time \<times> 'k list"

fun ev_push_call :: "'k ev_push \<Rightarrow> 'k ev_call" where
  "ev_push_call (wtx, now1, now2, ord) = EV_Push wtx now1 now2 ord"

fun ev_entry :: "'k ev_push \<Rightarrow> 'k \<times> EvictedTxInfo" where
  "ev_entry (wtx, now1, now2, ord) = (wtx_key wtx, new_EvictedTxInfo wtx now1)"

definition ev_pushes :: "'k EvictedTxCache \<Rightarrow> 'k ev_push list \<Rightarrow> 'k EvictedTxCache" where
  "ev_pushes c ps = ev_calls c (map ev_push_call ps)"

text \<open>A transaction with the given key, for the concrete runs below.\<close>

definition example_tx :: "'k \<Rightarrow> 'k wrappedTx" where
  "example_tx k =
     \<lparr>wtx_key = k, wtx_priority = 7, wtx_gasWanted = 21000, wtx_sender = ''sender'',
      wtx_size = 250\<rparr>"

subsection \<open>SeenTxSet\<close>

text \<open>
  \<open>peers\<close> is a \<open>map[uint16]bool\<close>. The entry of \<open>s.set\<close> is a struct value whose
  \<open>peers\<close> field refers to a map, so \<open>seenSet.peers[peer] = true\<close> and
  \<open>delete(seenSet.peers, peer)\<close> on the copy \<open>seenSet\<close> change the peers of the stored
  record; the model writes the changed record back.
\<close>

record timestampedPeerSet =
  peers :: "(16 word \<times> bool) list"
  time_seen :: time

record 'k SeenTxSet =
  seen_set :: "('k \<times> timestampedPeerSet) list"

definition NewSeenTxSet :: "'k SeenTxSet" where
  "NewSeenTxSet = \<lparr>seen_set = []\<rparr>"

definition SeenTxSet_Add :: "'k SeenTxSet \<Rightarrow> 'k \<Rightarrow> 16 word \<Rightarrow> time \<Rightarrow> 'k SeenTxSet" where
  "SeenTxSet_Add s txKey peer now =
     (if peer = 0 then s
      else case map_of (seen_set s) txKey of
        None \<Rightarrow>
          s\<lparr>seen_set := AList.update txKey
               \<lparr>peers = [(peer, True)], time_seen = now\<rparr> (seen_set s)\<rparr>
      | Some seenSet \<Rightarrow>
          s\<lparr>seen_set := AList.update txKey
               (seenSet\<lparr>peers := AList.update peer True (peers seenSet)\<rparr>) (seen_set s)\<rparr>)"

text \<open>
  \<open>Pop\<close> returns from inside the first round of its loop over the peers: the peer it
  deletes and returns is the first one the range visits.
\<close>

definition SeenTxSet_Pop :: "'k SeenTxSet \<Rightarrow> 'k \<Rightarrow> 16 word list \<Rightarrow> 16 word \<times> 'k SeenTxSet" where
  "SeenTxSet_Pop s txKey ord =
     (case map_of (seen_set s) txKey of
        Some seenSet \<Rightarrow>
          (case go_range ord (peers seenSet) of
             (peer, _) # _ \<Rightarrow>
               (peer, s\<lparr>seen_set := AList.update txKey
                  (seenSet\<lparr>peers := AList.delete peer (peers seenSet)\<rparr>) (seen_set s)\<rparr>)
           | [] \<Rightarrow> (0, s))
      | None \<Rightarrow> (0, s))"

definition SeenTxSet_RemoveKey :: "'k SeenTxSet \<Rightarrow> 'k \<Rightarrow> 'k SeenTxSet" where
  "SeenTxSet_RemoveKey s txKey = s\<lparr>seen_set := AList.delete txKey (seen_set s)\<rparr>"

definition SeenTxSet_Remove :: "'k SeenTxSet \<Rightarrow> 'k \<Rightarrow> 16 word \<Rightarrow> 'k SeenTxSet" where
  "SeenTxSet_Remove s txKey peer =
     (case map_of (seen_set s) txKey of
        Some st \<Rightarrow>
          (if length (peers st) = 1 then s\<lparr>seen_set := AList.delete txKey (seen_set s)\<rparr>
           else s\<lparr>seen_set := AList.update txKey
                  (st\<lparr>peers := AList.delete peer (peers st)\<rparr>) (seen_set s)\<rparr>)
      | None \<Rightarrow> s)"

fun seen_prune_step ::
  "time \<Rightarrow> ('k \<times> timestampedPeerSet) list \<Rightarrow> 'k \<times> timestampedPeerSet
     \<Rightarrow> ('k \<times> timestampedPeerSet) list" where
  "seen_prune_step limit m (key, seenSet) =
     (if time_seen seenSet < limit then AList.delete key m else m)"

definition SeenTxSet_Prune :: "'k SeenTxSet \<Rightarrow> time \<Rightarrow> 'k list \<Rightarrow> 'k SeenTxSet" where
  "SeenTxSet_Prune s limit ord =
     s\<lparr>seen_set := foldl (seen_prune_step limit) (seen_set s) (go_range ord (seen_set s))\<rparr>"

definition SeenTxSet_Has :: "'k SeenTxSet \<Rightarrow> 'k \<Rightarrow> 16 word \<Rightarrow> bool" where
  "SeenTxSet_Has s txKey peer =
     (case map_of (seen_set s) txKey of
        None \<Rightarrow> False
      | Some seenSet \<Rightarrow> (case map_of (peers seenSet) peer of None \<Rightarrow> False | Some b \<Rightarrow> b))"

text \<open>
  \<open>Get\<close> returns \<open>nil\<close> (here \<open>None\<close>) or a fresh \<open>map[uint16]struct{}\<close> that holds every
  key of \<open>peers\<close>; a map whose values carry nothing is the set of its keys.
\<close>

definition SeenTxSet_Get :: "'k SeenTxSet \<Rightarrow> 'k \<Rightarrow> 16 word set option" where
  "SeenTxSet_Get s txKey =
     (case map_of (seen_set s) txKey of
        None \<Rightarrow> None
      | Some seenSet \<Rightarrow> Some (set (map fst (peers seenSet))))"

definition SeenTxSet_Len :: "'k SeenTxSet \<Rightarrow> int" where
  "SeenTxSet_Len s = int (length (seen_set s))"

definition SeenTxSet_Reset :: "'k SeenTxSet \<Rightarrow> 'k SeenTxSet" where
  "SeenTxSet_Reset s = s\<lparr>seen_set := []\<rparr>"

text \<open>A sequence of calls on one seen-set; what \<open>Pop\<close> returns is dropped.\<close>

datatype 'k seen_call =
    Seen_Add 'k "16 word" time
  | Seen_Pop 'k "16 word list"
  | Seen_RemoveKey 'k
  | Seen_Remove 'k "16 word"
  | Seen_Prune time "'k list"
  | Seen_Reset

fun seen_step :: "'k SeenTxSet \<Rightarrow> 'k seen_call \<Rightarrow> 'k SeenTxSet" where
  "seen_step s (Seen_Add k p now) = SeenTxSet_Add s k p now"
| "seen_step s (Seen_Pop k ord) = snd (SeenTxSet_Pop s k ord)"
| "seen_step s (Seen_RemoveKey k) = SeenTxSet_RemoveKey s k"
| "seen_step s (Seen_Remove k p) = SeenTxSet_Remove s k p"
| "seen_step s (Seen_Prune limit ord) = SeenTxSet_Prune s limit ord"
| "seen_step s Seen_Reset = SeenTxSet_Reset s"

definition seen_calls :: "'k SeenTxSet \<Rightarrow> 'k seen_call list \<Rightarrow> 'k SeenTxSet" where
  "seen_calls s cs = foldl seen_step s cs"

text \<open>
  What holds of every seen-set the calls can build: no key and, within a record, no peer
  is stored twice, the peer 0 is stored nowhere, and every stored peer is mapped to
  \<open>true\<close>.
\<close>

definition peers_wf :: "(16 word \<times> bool) list \<Rightarrow> bool" where
  "peers_wf ps \<longleftrightarrow> distinct (map fst ps) \<and> (\<forall>(p, b) \<in> set ps. p \<noteq> 0 \<and> b)"

definition seen_wf :: "'k SeenTxSet \<Rightarrow> bool" where
  "seen_wf s \<longleftrightarrow>
     distinct (map fst (seen_set s)) \<and> (\<forall>(k, r) \<in> set (seen_set s). peers_wf (peers r))"

subsection \<open>Properties of LRUTxCache\<close>

lemma lru_wf_New: "lru_wf (NewLRUTxCache n)"
  by (simp add: lru_wf_def NewLRUTxCache_def)

lemma lru_wf_Reset: "lru_wf (LRUTxCache_Reset c)"
  by (simp add: lru_wf_def LRUTxCache_Reset_def)

lemma lru_wf_Remove: "lru_wf c \<Longrightarrow> lru_wf (LRUTxCache_Remove c k)"
  by (auto simp: lru_wf_def LRUTxCache_Remove_def list_Remove_def Let_def)

lemma lru_wf_Push: "lru_wf c \<Longrightarrow> lru_wf (snd (LRUTxCache_Push c k))"
  by (auto simp: lru_wf_def LRUTxCache_Push_def list_Remove_def list_MoveToBack_def Let_def
      split: list.splits)

lemma lru_wf_step: "lru_wf c \<Longrightarrow> lru_wf (lru_step c x)"
  by (cases x) (simp_all add: lru_wf_Push lru_wf_Remove lru_wf_Reset)

lemma lru_wf_calls: "lru_wf c \<Longrightarrow> lru_wf (lru_calls c cs)"
  unfolding lru_calls_def by (induction cs arbitrary: c) (simp_all add: lru_wf_step)


lemma lru_Has_list:
  "lru_wf c \<Longrightarrow> lru_staticSize c \<noteq> 0 \<Longrightarrow> LRUTxCache_Has c k \<longleftrightarrow> k \<in> set (lru_list c)"
  by (simp add: lru_wf_def LRUTxCache_Has_def)

lemma lru_staticSize_Push: "lru_staticSize (snd (LRUTxCache_Push c k)) = lru_staticSize c"
  by (simp add: LRUTxCache_Push_def Let_def split: option.splits list.splits)

lemma lru_staticSize_step: "lru_staticSize (lru_step c x) = lru_staticSize c"
  by (cases x) (simp_all add: lru_staticSize_Push LRUTxCache_Remove_def LRUTxCache_Reset_def
      Let_def split: option.splits)

lemma lru_staticSize_calls: "lru_staticSize (lru_calls c cs) = lru_staticSize c"
  unfolding lru_calls_def by (induction cs arbitrary: c) (simp_all add: lru_staticSize_step)

lemma lru_list_Push_new:
  assumes "lru_wf c" "lru_staticSize c \<noteq> 0" "k \<notin> set (lru_list c)"
  shows "lru_list (snd (LRUTxCache_Push c k)) =
     (if lru_staticSize c \<le> int (length (lru_list c)) then tl (lru_list c) else lru_list c) @ [k]"
  using assms
  by (simp add: lru_wf_def LRUTxCache_Push_def list_Remove_def Let_def split: list.splits)

lemma lru_list_Push_old:
  assumes "lru_wf c" "lru_staticSize c \<noteq> 0" "k \<in> set (lru_list c)"
  shows "LRUTxCache_Push c k = (False, c\<lparr>lru_list := remove1 k (lru_list c) @ [k]\<rparr>)"
  using assms
  by (simp add: lru_wf_def LRUTxCache_Push_def list_MoveToBack_def)

lemma lru_pushes_Cons: "lru_pushes c (k # ks) = lru_pushes (snd (LRUTxCache_Push c k)) ks"
  by (simp add: lru_pushes_def lru_calls_def)

lemma lru_pushes_Nil: "lru_pushes c [] = c"
  by (simp add: lru_pushes_def lru_calls_def)

lemma lru_pushes_append: "lru_pushes c (ks @ ks') = lru_pushes (lru_pushes c ks) ks'"
  by (simp add: lru_pushes_def lru_calls_def)

lemma lru_wf_pushes: "lru_wf c \<Longrightarrow> lru_wf (lru_pushes c ks)"
  by (simp add: lru_pushes_def lru_wf_calls)

lemma lru_list_pushes:
  assumes "lru_wf c" "lru_staticSize c = int N" "0 < N" "length (lru_list c) \<le> N"
    "distinct (lru_list c @ ks)"
  shows "lru_list (lru_pushes c ks) = drop (length (lru_list c @ ks) - N) (lru_list c @ ks)"
  using assms
proof (induction ks arbitrary: c)
  case Nil
  then show ?case by (simp add: lru_pushes_Nil)
next
  case (Cons k ks)
  let ?c' = "snd (LRUTxCache_Push c k)"
  have new: "k \<notin> set (lru_list c)" using Cons.prems by auto
  have nz: "lru_staticSize c \<noteq> 0" using Cons.prems by simp
  have wf': "lru_wf ?c'" using Cons.prems by (simp add: lru_wf_Push)
  have sz': "lru_staticSize ?c' = int N" using Cons.prems by (simp add: lru_staticSize_Push)
  show ?case
  proof (cases "length (lru_list c) = N")
    case True
    then obtain x xs where l: "lru_list c = x # xs" using Cons.prems(3) by (cases "lru_list c") auto
    have l': "lru_list ?c' = xs @ [k]"
      using lru_list_Push_new[OF Cons.prems(1) nz new] True Cons.prems(2) l by simp
    have len': "length (lru_list ?c') \<le> N" using l' True l by simp
    have d': "distinct (lru_list ?c' @ ks)" using Cons.prems(5) l l' by auto
    have "lru_list (lru_pushes ?c' ks) = drop (length (lru_list ?c' @ ks) - N) (lru_list ?c' @ ks)"
      by (rule Cons.IH[OF wf' sz' Cons.prems(3) len' d'])
    moreover have "length (lru_list ?c' @ ks) - N = length ks" using l' True l by simp
    moreover have "length (lru_list c @ k # ks) - N = Suc (length ks)" using True by simp
    moreover have "N = Suc (length xs)" using True l by simp
    ultimately show ?thesis using l l' by (simp add: lru_pushes_Cons)
  next
    case False
    then have lt: "length (lru_list c) < N" using Cons.prems(4) by simp
    have l': "lru_list ?c' = lru_list c @ [k]"
      using lru_list_Push_new[OF Cons.prems(1) nz new] lt Cons.prems(2) by simp
    have len': "length (lru_list ?c') \<le> N" using l' lt by simp
    have d': "distinct (lru_list ?c' @ ks)" using Cons.prems(5) l' by auto
    have "lru_list (lru_pushes ?c' ks) = drop (length (lru_list ?c' @ ks) - N) (lru_list ?c' @ ks)"
      by (rule Cons.IH[OF wf' sz' Cons.prems(3) len' d'])
    then show ?thesis using l' by (simp add: lru_pushes_Cons)
  qed
qed

lemma lru_list_pushes_New:
  assumes "0 < N" "distinct ks"
  shows "lru_list (lru_pushes (NewLRUTxCache (int N)) ks) = drop (length ks - N) ks"
proof -
  let ?c = "NewLRUTxCache (int N) :: 'a LRUTxCache"
  have e: "lru_list ?c = []" and sz: "lru_staticSize ?c = int N"
    by (simp_all add: NewLRUTxCache_def)
  show ?thesis
    using lru_list_pushes[of ?c N ks, OF lru_wf_New sz assms(1)] assms(2) by (simp add: e)
qed

text \<open>
  Claim C1. A dedup cache is built with capacity \<open>N > 0\<close> and \<open>N + 1\<close> distinct keys
  \<open>k1, ks\<close> are pushed in this order. Afterwards \<open>Has k1\<close> is false, \<open>Has k\<close> is true for
  each of the \<open>N\<close> later keys, and the cache holds no other key: \<open>k1\<close> is the one key
  that was evicted.
\<close>

theorem lru_push_evicts_first:
  assumes "0 < N" and "length ks = N" and "distinct (k1 # ks)"
  shows "\<not> LRUTxCache_Has (lru_pushes (NewLRUTxCache (int N)) (k1 # ks)) k1 \<and>
         (\<forall>k \<in> set ks. LRUTxCache_Has (lru_pushes (NewLRUTxCache (int N)) (k1 # ks)) k) \<and>
         (\<forall>k. LRUTxCache_Has (lru_pushes (NewLRUTxCache (int N)) (k1 # ks)) k \<longrightarrow> k \<in> set ks)"
proof -
  let ?c = "lru_pushes (NewLRUTxCache (int N)) (k1 # ks)"
  have l: "lru_list ?c = ks"
    using lru_list_pushes_New[OF assms(1) assms(3)] assms(2) by simp
  have wf: "lru_wf ?c" by (simp add: lru_wf_pushes lru_wf_New)
  have nz: "lru_staticSize ?c \<noteq> 0"
    using assms(1) by (simp add: lru_pushes_def lru_staticSize_calls NewLRUTxCache_def)
  show ?thesis using assms(3) by (simp add: lru_Has_list[OF wf nz] l)
qed

theorem lru_push_evicts_first_witness:
  "\<not> LRUTxCache_Has (lru_pushes (NewLRUTxCache 2) [1, 2, 3::nat]) 1 \<and>
   LRUTxCache_Has (lru_pushes (NewLRUTxCache 2) [1, 2, 3::nat]) 2 \<and>
   LRUTxCache_Has (lru_pushes (NewLRUTxCache 2) [1, 2, 3::nat]) 3"
  using lru_push_evicts_first[of 2 "[2, 3::nat]" 1] by simp



lemma lru_Push_present:
  assumes "lru_wf c" "lru_staticSize c \<noteq> 0" "LRUTxCache_Has c k"
  shows "fst (LRUTxCache_Push c k) = False \<and>
         lru_cacheMap (snd (LRUTxCache_Push c k)) = lru_cacheMap c \<and>
         lru_list (snd (LRUTxCache_Push c k)) = remove1 k (lru_list c) @ [k] \<and>
         length (lru_list (snd (LRUTxCache_Push c k))) = length (lru_list c)"
proof -
  have k: "k \<in> set (lru_list c)" using assms by (simp add: lru_Has_list)
  have "length (remove1 k (lru_list c) @ [k]) = length (lru_list c)"
    using k length_pos_if_in_set[OF k] by (simp add: length_remove1)
  then show ?thesis using lru_list_Push_old[OF assms(1,2) k] by simp
qed

text \<open>
  Claim C4 as stated fails for capacity 1: after \<open>Push 1\<close>, \<open>Push 1\<close> again and
  \<open>Push 2\<close> the key \<open>k1 = 1\<close> is gone and \<open>k2 = 2\<close>, the key pushed last, is present.
\<close>

theorem lru_repush_counterexample:
  "\<not> LRUTxCache_Has (lru_pushes (NewLRUTxCache 1) [1, 1, 2::nat]) 1 \<and>
   LRUTxCache_Has (lru_pushes (NewLRUTxCache 1) [1, 1, 2::nat]) 2"
  by (simp add: lru_pushes_def lru_calls_def NewLRUTxCache_def LRUTxCache_Push_def
      LRUTxCache_Has_def list_Remove_def list_MoveToBack_def)

text \<open>
  Claim C4, amended. In every state a cache of capacity \<open>N > 0\<close> can reach, \<open>Push\<close> of a
  key that is present returns false, leaves \<open>cacheMap\<close> and the length of the list as
  they are, and moves the key to the back of the list (the most recently used end), the
  other keys keeping their order. For \<open>N \<ge> 2\<close>: after pushing \<open>N\<close> distinct keys
  \<open>k1, k2, ks\<close>, pushing \<open>k1\<close> again and pushing a new key \<open>kn\<close>, the key \<open>k2\<close> is
  the one evicted; \<open>k1\<close>, \<open>kn\<close> and the keys \<open>ks\<close> are present.
\<close>

theorem lru_repush_moves_to_back:
  fixes k k1 k2 kn :: 'k
  shows
  "(0 < N \<and> LRUTxCache_Has (lru_calls (NewLRUTxCache N) cs) k \<longrightarrow>
      fst (LRUTxCache_Push (lru_calls (NewLRUTxCache N) cs) k) = False \<and>
      lru_cacheMap (snd (LRUTxCache_Push (lru_calls (NewLRUTxCache N) cs) k))
        = lru_cacheMap (lru_calls (NewLRUTxCache N) cs) \<and>
      length (lru_list (snd (LRUTxCache_Push (lru_calls (NewLRUTxCache N) cs) k)))
        = length (lru_list (lru_calls (NewLRUTxCache N) cs)) \<and>
      lru_list (snd (LRUTxCache_Push (lru_calls (NewLRUTxCache N) cs) k))
        = remove1 k (lru_list (lru_calls (NewLRUTxCache N) cs)) @ [k]) \<and>
   (2 \<le> N \<and> int (length (k1 # k2 # ks)) = N \<and> distinct (k1 # k2 # ks @ [kn]) \<longrightarrow>
      lru_list (lru_pushes (NewLRUTxCache N) (k1 # k2 # ks @ [k1, kn])) = ks @ [k1, kn] \<and>
      \<not> LRUTxCache_Has (lru_pushes (NewLRUTxCache N) (k1 # k2 # ks @ [k1, kn])) k2 \<and>
      LRUTxCache_Has (lru_pushes (NewLRUTxCache N) (k1 # k2 # ks @ [k1, kn])) k1 \<and>
      LRUTxCache_Has (lru_pushes (NewLRUTxCache N) (k1 # k2 # ks @ [k1, kn])) kn \<and>
      (\<forall>k \<in> set ks. LRUTxCache_Has (lru_pushes (NewLRUTxCache N) (k1 # k2 # ks @ [k1, kn])) k))"
proof (intro conjI impI)
  let ?c = "lru_calls (NewLRUTxCache N) cs"
  assume a: "0 < N \<and> LRUTxCache_Has ?c k"
  have wf: "lru_wf ?c" by (simp add: lru_wf_calls lru_wf_New)
  have nz: "lru_staticSize ?c \<noteq> 0" using a by (simp add: lru_staticSize_calls NewLRUTxCache_def)
  note p = lru_Push_present[OF wf nz conjunct2[OF a]]
  show "fst (LRUTxCache_Push ?c k) = False" using p by blast
  show "lru_cacheMap (snd (LRUTxCache_Push ?c k)) = lru_cacheMap ?c" using p by blast
  show "length (lru_list (snd (LRUTxCache_Push ?c k))) = length (lru_list ?c)" using p by blast
  show "lru_list (snd (LRUTxCache_Push ?c k)) = remove1 k (lru_list ?c) @ [k]" using p by blast
next
  let ?all = "k1 # k2 # ks @ [k1, kn]"
  let ?new = "NewLRUTxCache N :: 'k LRUTxCache"
  let ?c = "lru_pushes ?new ?all"
  assume a: "2 \<le> N \<and> int (length (k1 # k2 # ks)) = N \<and> distinct (k1 # k2 # ks @ [kn])"
  define M where "M = length (k1 # k2 # ks)"
  have N: "N = int M" and M0: "0 < M" using a by (simp_all add: M_def)
  let ?c1 = "lru_pushes ?new (k1 # k2 # ks)"
  have d1: "distinct (k1 # k2 # ks)" using a by auto
  have l1: "lru_list ?c1 = k1 # k2 # ks"
    using lru_list_pushes_New[OF M0 d1] by (simp add: N M_def)
  have wf1: "lru_wf ?c1" by (simp add: lru_wf_pushes lru_wf_New)
  have sz1: "lru_staticSize ?c1 = N"
    by (simp add: lru_pushes_def lru_staticSize_calls NewLRUTxCache_def)
  have nz1: "lru_staticSize ?c1 \<noteq> 0" using sz1 a by simp
  let ?c2 = "snd (LRUTxCache_Push ?c1 k1)"
  have l2: "lru_list ?c2 = k2 # ks @ [k1]"
    using lru_list_Push_old[OF wf1 nz1, of k1] l1 by simp
  have wf2: "lru_wf ?c2" by (rule lru_wf_Push[OF wf1])
  have sz2: "lru_staticSize ?c2 = N" by (simp add: lru_staticSize_Push sz1)
  have nz2: "lru_staticSize ?c2 \<noteq> 0" using sz2 a by simp
  let ?c3 = "snd (LRUTxCache_Push ?c2 kn)"
  have new: "kn \<notin> set (lru_list ?c2)" using a l2 by auto
  have l3: "lru_list ?c3 = ks @ [k1, kn]"
    using lru_list_Push_new[OF wf2 nz2 new] l2 sz2 N by (simp add: M_def)
  have wf3: "lru_wf ?c3" by (rule lru_wf_Push[OF wf2])
  have nz3: "lru_staticSize ?c3 \<noteq> 0" by (simp add: lru_staticSize_Push nz1)
  have c: "?c = ?c3"
    using lru_pushes_append[of ?new "k1 # k2 # ks" "[k1, kn]"]
    by (simp add: lru_pushes_Cons lru_pushes_Nil)
  show "lru_list ?c = ks @ [k1, kn]" using c l3 by simp
  show "\<not> LRUTxCache_Has ?c k2" using a unfolding c lru_Has_list[OF wf3 nz3] l3 by auto
  show "LRUTxCache_Has ?c k1" unfolding c lru_Has_list[OF wf3 nz3] l3 by simp
  show "LRUTxCache_Has ?c kn" unfolding c lru_Has_list[OF wf3 nz3] l3 by simp
  show "\<forall>k \<in> set ks. LRUTxCache_Has ?c k" unfolding c lru_Has_list[OF wf3 nz3] l3 by simp
qed

theorem lru_repush_moves_to_back_witness:
  "fst (LRUTxCache_Push (lru_calls (NewLRUTxCache 3) [LRU_Push 1, LRU_Push (2::nat)]) 1) = False \<and>
   lru_list (snd (LRUTxCache_Push (lru_calls (NewLRUTxCache 3) [LRU_Push 1, LRU_Push (2::nat)]) 1))
     = [2, 1] \<and>
   lru_list (lru_pushes (NewLRUTxCache 3) [1, 2, 3, 1, 4::nat]) = [3, 1, 4] \<and>
   \<not> LRUTxCache_Has (lru_pushes (NewLRUTxCache 3) [1, 2, 3, 1, 4::nat]) 2 \<and>
   LRUTxCache_Has (lru_pushes (NewLRUTxCache 3) [1, 2, 3, 1, 4::nat]) 1"
proof -
  have h1: "LRUTxCache_Has (lru_calls (NewLRUTxCache 3) [LRU_Push 1, LRU_Push (2::nat)]) 1"
    by (simp add: lru_calls_def NewLRUTxCache_def LRUTxCache_Push_def LRUTxCache_Has_def)
  have l1: "lru_list (lru_calls (NewLRUTxCache 3) [LRU_Push 1, LRU_Push (2::nat)]) = [1, 2]"
    by (simp add: lru_calls_def NewLRUTxCache_def LRUTxCache_Push_def)
  show ?thesis
    using lru_repush_moves_to_back[where N = 3 and cs = "[LRU_Push 1, LRU_Push (2::nat)]" and k = 1
        and ?k1.0 = 1 and ?k2.0 = 2 and ks = "[3]" and kn = 4] h1 l1
    by simp
qed

lemma lru_disabled_step:
  assumes "lru_staticSize c = 0" "lru_cacheMap c = Map.empty" "lru_list c = []"
  shows "lru_staticSize (lru_step c x) = 0 \<and> lru_cacheMap (lru_step c x) = Map.empty \<and>
         lru_list (lru_step c x) = []"
  using assms
  by (cases x) (simp_all add: LRUTxCache_Push_def LRUTxCache_Remove_def LRUTxCache_Reset_def)

lemma lru_disabled_calls:
  assumes "lru_staticSize c = 0" "lru_cacheMap c = Map.empty" "lru_list c = []"
  shows "lru_staticSize (lru_calls c cs) = 0 \<and> lru_cacheMap (lru_calls c cs) = Map.empty \<and>
         lru_list (lru_calls c cs) = []"
  using assms unfolding lru_calls_def
proof (induction cs arbitrary: c)
  case Nil
  then show ?case by simp
next
  case (Cons x cs)
  show ?case using Cons.IH[of "lru_step c x"] lru_disabled_step[OF Cons.prems] by simp
qed

text \<open>
  Claim C5. A dedup cache is built with capacity 0. After any sequence of calls of
  \<open>Push\<close>, \<open>Remove\<close> and \<open>Reset\<close>, \<open>Push\<close> returns true and leaves the state as it
  is, \<open>Has\<close> returns false, and neither \<open>cacheMap\<close> nor the list holds an entry.
\<close>

theorem lru_capacity_zero_disabled:
  "fst (LRUTxCache_Push (lru_calls (NewLRUTxCache 0) cs) k) = True \<and>
   snd (LRUTxCache_Push (lru_calls (NewLRUTxCache 0) cs) k) = lru_calls (NewLRUTxCache 0) cs \<and>
   LRUTxCache_Has (lru_calls (NewLRUTxCache 0) cs) k = False \<and>
   lru_cacheMap (lru_calls (NewLRUTxCache 0) cs) = Map.empty \<and>
   lru_list (lru_calls (NewLRUTxCache 0) cs) = []"
proof -
  let ?c = "lru_calls (NewLRUTxCache 0) cs :: 'a LRUTxCache"
  have "lru_staticSize ?c = 0 \<and> lru_cacheMap ?c = Map.empty \<and> lru_list ?c = []"
    by (rule lru_disabled_calls) (simp_all add: NewLRUTxCache_def)
  then show ?thesis by (simp add: LRUTxCache_Push_def LRUTxCache_Has_def)
qed

subsection \<open>Properties of EvictedTxCache\<close>


lemma set_go_range_subset: "set (go_range ord m) \<subseteq> set m"
  by (auto simp: go_range_def split: option.splits intro: map_of_SomeD[OF sym])

lemma set_go_range:
  assumes "distinct (map fst m)" "range_order ord m"
  shows "set (go_range ord m) = set m"
proof
  show "set (go_range ord m) \<subseteq> set m" by (rule set_go_range_subset)
  show "set m \<subseteq> set (go_range ord m)"
  proof
    fix x assume x: "x \<in> set m"
    obtain k v where kv: "x = (k, v)" by (cases x)
    have "map_of m k = Some v" using x kv assms(1) by simp
    moreover have "k \<in> set ord" using x kv assms(2) by (force simp: range_order_def)
    ultimately show "x \<in> set (go_range ord m)"
      unfolding kv go_range_def by force
  qed
qed

lemma length_delete_present:
  "distinct (map fst m) \<Longrightarrow> k \<in> fst ` set m \<Longrightarrow> Suc (length (AList.delete k m)) = length m"
proof (induction m)
  case Nil
  then show ?case by simp
next
  case (Cons x m)
  show ?case
  proof (cases "fst x = k")
    case True
    then have "k \<notin> fst ` set m" using Cons.prems(1) by auto
    then have "AList.delete k m = m" by simp
    then show ?thesis using True by (cases x) auto
  next
    case False
    then show ?thesis using Cons by (cases x) auto
  qed
qed

lemma length_update:
  "length (AList.update k v m) = (if k \<in> fst ` set m then length m else Suc (length m))"
  by (induction m) auto

lemma ev_prune_fold:
  "foldl (prune_step limit) m xs =
     filter (\<lambda>(k, i). \<not> (\<exists>j. (k, j) \<in> set xs \<and> timeEvicted j < limit)) m"
proof (induction xs arbitrary: m)
  case Nil
  then show ?case by simp
next
  case (Cons x xs)
  obtain k i where x: "x = (k, i)" by (cases x)
  show ?case
    unfolding x by (auto simp: Cons.IH AList.delete_eq intro!: filter_cong)
qed


lemma oldest_fold:
  "snd (foldl oldest_step (k0, t0) xs) \<le> t0 \<and>
   (\<forall>(k', i') \<in> set xs. snd (foldl oldest_step (k0, t0) xs) \<le> timeEvicted i') \<and>
   (foldl oldest_step (k0, t0) xs = (k0, t0) \<or>
    (\<exists>i. (fst (foldl oldest_step (k0, t0) xs), i) \<in> set xs \<and>
         timeEvicted i = snd (foldl oldest_step (k0, t0) xs)))"
proof (induction xs arbitrary: k0 t0)
  case Nil
  then show ?case by simp
next
  case (Cons x xs)
  obtain kx ix where x: "x = (kx, ix)" by (cases x)
  show ?case
  proof (cases "timeEvicted ix < t0")
    case True
    then show ?thesis using Cons.IH[of kx "timeEvicted ix"] unfolding x by force
  next
    case False
    then show ?thesis using Cons.IH[of k0 t0] unfolding x by force
  qed
qed

lemma oldest_key_in: "fst (foldl oldest_step (k0, t0) xs) \<in> insert k0 (fst ` set xs)"
  using oldest_fold[of k0 t0 xs] by (force simp: image_iff)

lemma ev_store_key: "wtx_key w \<in> fst ` set (ev_cache (EvictedTxCache_Push_store c w t))"
  by (simp add: EvictedTxCache_Push_store_def AList.dom_update)

lemma ev_store_distinct:
  "distinct (map fst (ev_cache c)) \<Longrightarrow>
   distinct (map fst (ev_cache (EvictedTxCache_Push_store c w t)))"
  by (simp add: EvictedTxCache_Push_store_def AList.distinct_update)

lemma ev_store_staticSize:
  "ev_staticSize (EvictedTxCache_Push_store c w t) = ev_staticSize c"
  by (simp add: EvictedTxCache_Push_store_def)

lemma ev_store_length:
  "length (ev_cache (EvictedTxCache_Push_store c w t)) =
     (if wtx_key w \<in> fst ` set (ev_cache c) then length (ev_cache c)
      else Suc (length (ev_cache c)))"
  by (simp add: EvictedTxCache_Push_store_def length_update)

lemma ev_victim_in:
  "fst (foldl oldest_step (wtx_key w, t2)
          (go_range ord (ev_cache (EvictedTxCache_Push_store c w t1))))
     \<in> fst ` set (ev_cache (EvictedTxCache_Push_store c w t1))"
proof -
  let ?m = "ev_cache (EvictedTxCache_Push_store c w t1)"
  have "fst ` set (go_range ord ?m) \<subseteq> fst ` set ?m"
    by (rule image_mono[OF set_go_range_subset])
  then have "insert (wtx_key w) (fst ` set (go_range ord ?m)) \<subseteq> fst ` set ?m"
    using ev_store_key[of w c t1] by simp
  then show ?thesis using oldest_key_in[of "wtx_key w" t2 "go_range ord ?m"] by blast
qed

lemma ev_distinct_step:
  assumes "distinct (map fst (ev_cache c))"
  shows "distinct (map fst (ev_cache (ev_step c x)))"
proof (cases x)
  case (EV_Push w t1 t2 ord)
  then show ?thesis
    using ev_store_distinct[OF assms, of w t1]
    by (simp add: EvictedTxCache_Push_def Let_def AList.distinct_delete)
next
  case (EV_Pop k)
  then show ?thesis using assms
    by (simp add: EvictedTxCache_Pop_def AList.distinct_delete split: option.splits)
next
  case (EV_Prune limit ord)
  then show ?thesis using assms
    by (simp add: EvictedTxCache_Prune_def ev_prune_fold distinct_map_filter)
next
  case EV_Reset
  then show ?thesis by (simp add: EvictedTxCache_Reset_def)
qed

lemma ev_staticSize_step: "ev_staticSize (ev_step c x) = ev_staticSize c"
  by (cases x)
     (simp_all add: EvictedTxCache_Push_def EvictedTxCache_Push_store_def EvictedTxCache_Pop_def
        EvictedTxCache_Prune_def EvictedTxCache_Reset_def Let_def split: option.splits)

lemma ev_distinct_calls:
  "distinct (map fst (ev_cache c)) \<Longrightarrow> distinct (map fst (ev_cache (ev_calls c cs)))"
  unfolding ev_calls_def by (induction cs arbitrary: c) (simp_all add: ev_distinct_step)

lemma ev_staticSize_calls: "ev_staticSize (ev_calls c cs) = ev_staticSize c"
  unfolding ev_calls_def by (induction cs arbitrary: c) (simp_all add: ev_staticSize_step)

lemma ev_distinct_reachable: "distinct (map fst (ev_cache (ev_calls (NewEvictedTxCache n) cs)))"
  by (rule ev_distinct_calls) (simp add: NewEvictedTxCache_def)

lemma ev_Push_length:
  assumes "distinct (map fst (ev_cache c))" "0 \<le> ev_staticSize c"
    "int (length (ev_cache c)) \<le> ev_staticSize c"
  shows "int (length (ev_cache (EvictedTxCache_Push c w t1 t2 ord))) \<le> ev_staticSize c"
proof -
  let ?c1 = "EvictedTxCache_Push_store c w t1"
  let ?v = "fst (foldl oldest_step (wtx_key w, t2) (go_range ord (ev_cache ?c1)))"
  have "Suc (length (AList.delete ?v (ev_cache ?c1))) = length (ev_cache ?c1)"
    by (rule length_delete_present[OF ev_store_distinct[OF assms(1)] ev_victim_in])
  moreover have "length (ev_cache ?c1) \<le> Suc (length (ev_cache c))"
    by (simp add: ev_store_length)
  ultimately show ?thesis using assms(3)
    by (simp add: EvictedTxCache_Push_def Let_def ev_store_staticSize)
qed

lemma ev_step_length:
  assumes "distinct (map fst (ev_cache c))" "0 \<le> ev_staticSize c"
    "int (length (ev_cache c)) \<le> ev_staticSize c"
  shows "int (length (ev_cache (ev_step c x))) \<le> ev_staticSize c"
proof (cases x)
  case (EV_Push w t1 t2 ord)
  then show ?thesis using ev_Push_length[OF assms] by simp
next
  case (EV_Pop k)
  have "length (AList.delete k (ev_cache c)) \<le> length (ev_cache c)"
    by (rule AList.length_delete_le)
  then show ?thesis using EV_Pop assms(3)
    by (simp add: EvictedTxCache_Pop_def split: option.splits)
next
  case (EV_Prune limit ord)
  have "length (ev_cache (EvictedTxCache_Prune c limit ord)) \<le> length (ev_cache c)"
    by (simp add: EvictedTxCache_Prune_def ev_prune_fold)
  then show ?thesis using EV_Prune assms(3) by simp
next
  case EV_Reset
  then show ?thesis using assms(2) by (simp add: EvictedTxCache_Reset_def)
qed

lemma ev_calls_length:
  assumes "distinct (map fst (ev_cache c))" "0 \<le> ev_staticSize c"
    "int (length (ev_cache c)) \<le> ev_staticSize c"
  shows "int (length (ev_cache (ev_calls c cs))) \<le> ev_staticSize c"
  using assms unfolding ev_calls_def
proof (induction cs arbitrary: c)
  case Nil
  then show ?case by simp
next
  case (Cons x cs)
  show ?case
    using Cons.IH[of "ev_step c x"] ev_distinct_step[OF Cons.prems(1), of x]
      ev_step_length[OF Cons.prems, of x] Cons.prems(2)
    by (simp add: ev_staticSize_step)
qed




lemma map_of_filter_snd:
  "distinct (map fst m) \<Longrightarrow>
   map_of (filter (\<lambda>(k, i). \<not> Q i) m) k =
     (case map_of m k of None \<Rightarrow> None | Some i \<Rightarrow> if Q i then None else Some i)"
proof (induction m)
  case Nil
  then show ?case by simp
next
  case (Cons x m)
  obtain k' i' where x: "x = (k', i')" by (cases x)
  have "k' \<notin> fst ` set m" using Cons.prems x by simp
  then have none: "map_of m k' = None" by (simp add: map_of_eq_None_iff)
  show ?case using Cons x none by (auto split: option.splits)
qed

lemma ev_Prune_cache:
  assumes "distinct (map fst (ev_cache c))" "range_order ord (ev_cache c)"
  shows "ev_cache (EvictedTxCache_Prune c limit ord) =
     filter (\<lambda>(k, i). \<not> timeEvicted i < limit) (ev_cache c)"
proof -
  have "filter (\<lambda>(k, i). \<not> (\<exists>j. (k, j) \<in> set (ev_cache c) \<and> timeEvicted j < limit)) (ev_cache c)
      = filter (\<lambda>(k, i). \<not> timeEvicted i < limit) (ev_cache c)"
  proof (rule filter_cong[OF refl])
    fix x assume x: "x \<in> set (ev_cache c)"
    obtain k i where ki: "x = (k, i)" by (cases x)
    have in_m: "(k, i) \<in> set (ev_cache c)" using x ki by simp
    have "(\<forall>j. (k, j) \<in> set (ev_cache c) \<longrightarrow> \<not> timeEvicted j < limit)
        \<longleftrightarrow> \<not> timeEvicted i < limit"
      using eq_key_imp_eq_value[OF assms(1) in_m] in_m by blast
    then show "(case x of (k, i) \<Rightarrow> \<not> (\<exists>j. (k, j) \<in> set (ev_cache c) \<and> timeEvicted j < limit))
        = (case x of (k, i) \<Rightarrow> \<not> timeEvicted i < limit)"
      unfolding ki by simp
  qed
  then show ?thesis
    by (simp add: EvictedTxCache_Prune_def ev_prune_fold set_go_range[OF assms])
qed

text \<open>
  Claim C6. In every state \<open>c\<close> the eviction-history cache can reach, and for every order
  in which the loop of \<open>Prune\<close> can visit the entries, \<open>Prune limit\<close> removes all and only
  the records whose eviction time is strictly before \<open>limit\<close>: afterwards \<open>Get k\<close> is absent
  where the record of \<open>k\<close> was absent or older than \<open>limit\<close>, and it is the record of
  before, unchanged, where its eviction time is \<open>limit\<close> or later. The capacity is unchanged.
\<close>

theorem ev_Prune_removes_older:
  assumes "c = ev_calls (NewEvictedTxCache N) cs" and "range_order ord (ev_cache c)"
  shows "(\<forall>k. EvictedTxCache_Get (EvictedTxCache_Prune c limit ord) k =
            (case EvictedTxCache_Get c k of
               None \<Rightarrow> None
             | Some info \<Rightarrow> if timeEvicted info < limit then None else Some info)) \<and>
         (\<forall>k. EvictedTxCache_Has (EvictedTxCache_Prune c limit ord) k \<longleftrightarrow>
            (\<exists>info. EvictedTxCache_Get c k = Some info \<and> limit \<le> timeEvicted info)) \<and>
         ev_staticSize (EvictedTxCache_Prune c limit ord) = ev_staticSize c"
proof -
  have d: "distinct (map fst (ev_cache c))"
    unfolding assms(1) by (rule ev_distinct_reachable)
  have g: "EvictedTxCache_Get (EvictedTxCache_Prune c limit ord) k =
            (case EvictedTxCache_Get c k of
               None \<Rightarrow> None
             | Some info \<Rightarrow> if timeEvicted info < limit then None else Some info)" for k
    by (simp add: EvictedTxCache_Get_def ev_Prune_cache[OF d assms(2)] map_of_filter_snd[OF d])
  have h: "EvictedTxCache_Has (EvictedTxCache_Prune c limit ord) k \<longleftrightarrow>
            (\<exists>info. EvictedTxCache_Get c k = Some info \<and> limit \<le> timeEvicted info)" for k
    using g[of k] by (auto simp: EvictedTxCache_Has_def EvictedTxCache_Get_def split: option.splits)
  have s: "ev_staticSize (EvictedTxCache_Prune c limit ord) = ev_staticSize c"
    by (simp add: EvictedTxCache_Prune_def)
  show ?thesis using g h s by blast
qed


lemma ev_run2:
  "ev_cache (ev_calls (NewEvictedTxCache 2)
      [EV_Push (example_tx (3::nat)) 10 10 [], EV_Push (example_tx 4) 20 21 []]) =
   [(3, new_EvictedTxInfo (example_tx (3::nat)) 10),
    (4, new_EvictedTxInfo (example_tx (4::nat)) 20)]"
  by (simp add: ev_calls_def NewEvictedTxCache_def EvictedTxCache_Push_def
      EvictedTxCache_Push_store_def example_tx_def)

theorem ev_Prune_removes_older_witness:
  "EvictedTxCache_Get (EvictedTxCache_Prune (ev_calls (NewEvictedTxCache 2)
      [EV_Push (example_tx (3::nat)) 10 10 [], EV_Push (example_tx 4) 20 21 []]) 20 [4, 3]) 3 = None \<and>
   EvictedTxCache_Get (EvictedTxCache_Prune (ev_calls (NewEvictedTxCache 2)
      [EV_Push (example_tx (3::nat)) 10 10 [], EV_Push (example_tx 4) 20 21 []]) 20 [4, 3]) 4
     = Some (new_EvictedTxInfo (example_tx (4::nat)) 20)"
proof -
  let ?c = "ev_calls (NewEvictedTxCache 2)
      [EV_Push (example_tx (3::nat)) 10 10 [], EV_Push (example_tx 4) 20 21 []]"
  have ro: "range_order [4, 3] (ev_cache ?c)"
    by (simp add: ev_run2 range_order_def)
  show ?thesis
    using ev_Prune_removes_older[OF refl ro, of 20]
    by (simp add: EvictedTxCache_Get_def ev_run2 new_EvictedTxInfo_def)
qed

text \<open>
  Claim C10. In every state \<open>c\<close> the eviction-history cache can reach, \<open>Push\<close> of a
  transaction whose key is already recorded, with the size within capacity before the call,
  replaces the record in place: the record of that key now holds the priority, gas-wanted,
  sender and size of the new call and the time of the call, every other key keeps its
  record, and the number of records and the keys are the same, so no record is removed.
\<close>

theorem ev_Push_existing_replaces:
  assumes "c = ev_calls (NewEvictedTxCache N) cs"
    and "EvictedTxCache_Has c (wtx_key wtx)"
    and "int (length (ev_cache c)) \<le> ev_staticSize c"
  shows "EvictedTxCache_Get (EvictedTxCache_Push c wtx now1 now2 ord) (wtx_key wtx) =
           Some \<lparr>timeEvicted = now1, priority = wtx_priority wtx, gasWanted = wtx_gasWanted wtx,
                 sender = wtx_sender wtx, size_info = wtx_size wtx\<rparr> \<and>
         (\<forall>k. k \<noteq> wtx_key wtx \<longrightarrow>
            EvictedTxCache_Get (EvictedTxCache_Push c wtx now1 now2 ord) k = EvictedTxCache_Get c k) \<and>
         length (ev_cache (EvictedTxCache_Push c wtx now1 now2 ord)) = length (ev_cache c) \<and>
         map fst (ev_cache (EvictedTxCache_Push c wtx now1 now2 ord)) = map fst (ev_cache c)"
proof -
  let ?c1 = "EvictedTxCache_Push_store c wtx now1"
  have k: "wtx_key wtx \<in> fst ` set (ev_cache c)"
    using assms(2) by (simp add: EvictedTxCache_Has_def map_of_eq_None_iff)
  have len: "length (ev_cache ?c1) = length (ev_cache c)"
    using k by (simp add: ev_store_length)
  have p: "EvictedTxCache_Push c wtx now1 now2 ord = ?c1"
    using len assms(3) by (simp add: EvictedTxCache_Push_def Let_def ev_store_staticSize)
  have keys: "map fst (ev_cache ?c1) = map fst (ev_cache c)"
    using k by (simp add: EvictedTxCache_Push_store_def AList.update_keys)
  have g: "map_of (ev_cache ?c1) =
      (map_of (ev_cache c))(wtx_key wtx \<mapsto> new_EvictedTxInfo wtx now1)"
    by (simp add: EvictedTxCache_Push_store_def AList.update_conv')
  show ?thesis
    unfolding p using len keys
    by (simp add: EvictedTxCache_Get_def g new_EvictedTxInfo_def)
qed

theorem ev_Push_existing_replaces_witness:
  "EvictedTxCache_Get (EvictedTxCache_Push (ev_calls (NewEvictedTxCache 2)
      [EV_Push (example_tx (3::nat)) 10 10 [], EV_Push (example_tx 4) 20 21 []])
      \<lparr>wtx_key = 3, wtx_priority = 9, wtx_gasWanted = 8, wtx_sender = ''other'', wtx_size = 6\<rparr>
      30 31 [3, 4]) 3 =
     Some \<lparr>timeEvicted = 30, priority = 9, gasWanted = 8, sender = ''other'', size_info = 6\<rparr> \<and>
   length (ev_cache (EvictedTxCache_Push (ev_calls (NewEvictedTxCache 2)
      [EV_Push (example_tx (3::nat)) 10 10 [], EV_Push (example_tx 4) 20 21 []])
      \<lparr>wtx_key = 3, wtx_priority = 9, wtx_gasWanted = 8, wtx_sender = ''other'', wtx_size = 6\<rparr>
      30 31 [3, 4])) = 2"
proof -
  let ?c = "ev_calls (NewEvictedTxCache 2)
      [EV_Push (example_tx (3::nat)) 10 10 [], EV_Push (example_tx 4) 20 21 []]"
  let ?w = "\<lparr>wtx_key = 3::nat, wtx_priority = 9, wtx_gasWanted = 8, wtx_sender = ''other'',
             wtx_size = 6\<rparr>"
  have h: "EvictedTxCache_Has ?c (wtx_key ?w)"
    by (simp add: EvictedTxCache_Has_def ev_run2)
  have sz: "ev_staticSize ?c = 2"
    by (simp add: ev_staticSize_calls NewEvictedTxCache_def)
  have l: "int (length (ev_cache ?c)) \<le> ev_staticSize ?c"
    by (simp add: sz ev_run2)
  show ?thesis
    using ev_Push_existing_replaces[OF refl h l, of 30 31 "[3, 4]"] by (simp add: ev_run2)
qed




lemma update_new: "k \<notin> fst ` set m \<Longrightarrow> AList.update k v m = m @ [(k, v)]"
  by (induction m) auto

lemma ev_pushes_Nil: "ev_pushes c [] = c"
  by (simp add: ev_pushes_def ev_calls_def)

lemma ev_pushes_Cons:
  "ev_pushes c ((w, t1, t2, ord) # ps) = ev_pushes (EvictedTxCache_Push c w t1 t2 ord) ps"
  by (simp add: ev_pushes_def ev_calls_def)

lemma ev_pushes_snoc:
  "ev_pushes c (ps @ [(w, t1, t2, ord)]) = EvictedTxCache_Push (ev_pushes c ps) w t1 t2 ord"
  by (simp add: ev_pushes_def ev_calls_def)

lemma ev_pushes_fill:
  assumes "distinct (map fst (ev_cache c) @ map (fst \<circ> ev_entry) ps)"
    and "int (length (ev_cache c) + length ps) \<le> ev_staticSize c"
  shows "ev_cache (ev_pushes c ps) = ev_cache c @ map ev_entry ps"
  using assms
proof (induction ps arbitrary: c)
  case Nil
  then show ?case by (simp add: ev_pushes_Nil)
next
  case (Cons p ps)
  obtain w t1 t2 ord where p: "p = (w, t1, t2, ord)" by (cases p)
  let ?c1 = "EvictedTxCache_Push_store c w t1"
  have new: "wtx_key w \<notin> fst ` set (ev_cache c)" using Cons.prems(1) p by auto
  have m1: "ev_cache ?c1 = ev_cache c @ [ev_entry p]"
    using new by (simp add: EvictedTxCache_Push_store_def update_new p)
  have push: "EvictedTxCache_Push c w t1 t2 ord = ?c1"
    using Cons.prems(2) m1 by (simp add: EvictedTxCache_Push_def Let_def ev_store_staticSize)
  have d: "distinct (map fst (ev_cache ?c1) @ map (fst \<circ> ev_entry) ps)"
    using Cons.prems(1) m1 by (auto simp: comp_def)
  have l: "int (length (ev_cache ?c1) + length ps) \<le> ev_staticSize ?c1"
    using Cons.prems(2) m1 by (simp add: ev_store_staticSize)
  show ?case
    using Cons.IH[OF d l] m1 by (simp add: p ev_pushes_Cons push)
qed

lemma ev_victim_min:
  assumes "distinct (map fst (ev_cache c))" and "t1 \<le> t2"
    and "range_order ord (ev_cache (EvictedTxCache_Push_store c w t1))"
  shows "\<exists>i. (fst (foldl oldest_step (wtx_key w, t2)
                 (go_range ord (ev_cache (EvictedTxCache_Push_store c w t1)))), i)
               \<in> set (ev_cache (EvictedTxCache_Push_store c w t1)) \<and>
             (\<forall>(k', i') \<in> set (ev_cache (EvictedTxCache_Push_store c w t1)).
                timeEvicted i \<le> timeEvicted i')"
proof -
  let ?m = "ev_cache (EvictedTxCache_Push_store c w t1)"
  let ?r = "foldl oldest_step (wtx_key w, t2) (go_range ord ?m)"
  have d: "distinct (map fst ?m)" by (rule ev_store_distinct[OF assms(1)])
  have s: "set (go_range ord ?m) = set ?m" by (rule set_go_range[OF d assms(3)])
  note f = oldest_fold[of "wtx_key w" t2 "go_range ord ?m", unfolded s]
  have le: "\<forall>(k', i') \<in> set ?m. snd ?r \<le> timeEvicted i'" using f by blast
  have new: "(wtx_key w, new_EvictedTxInfo w t1) \<in> set ?m"
    by (rule map_of_SomeD) (simp add: EvictedTxCache_Push_store_def AList.update_conv')
  from f have "?r = (wtx_key w, t2) \<or> (\<exists>i. (fst ?r, i) \<in> set ?m \<and> timeEvicted i = snd ?r)"
    by blast
  then show ?thesis
  proof
    assume r: "?r = (wtx_key w, t2)"
    have "\<forall>(k', i') \<in> set ?m. timeEvicted (new_EvictedTxInfo w t1) \<le> timeEvicted i'"
      using le assms(2) unfolding r by (auto simp: new_EvictedTxInfo_def)
    then show ?thesis using new unfolding r by auto
  next
    assume "\<exists>i. (fst ?r, i) \<in> set ?m \<and> timeEvicted i = snd ?r"
    then obtain i where i: "(fst ?r, i) \<in> set ?m" "timeEvicted i = snd ?r" by blast
    have "\<forall>(k', i') \<in> set ?m. timeEvicted i \<le> timeEvicted i'"
      using le unfolding i(2) .
    then show ?thesis using i(1) by blast
  qed
qed


lemma ev_Push_over_capacity:
  assumes "distinct (map fst (ev_cache c))" and "t1 \<le> t2"
    and "range_order ord (ev_cache (EvictedTxCache_Push_store c w t1))"
    and "ev_staticSize c < int (length (ev_cache (EvictedTxCache_Push_store c w t1)))"
  shows "\<exists>k info.
           EvictedTxCache_Get (EvictedTxCache_Push_store c w t1) k = Some info \<and>
           (\<forall>k' info'. EvictedTxCache_Get (EvictedTxCache_Push_store c w t1) k' = Some info'
               \<longrightarrow> timeEvicted info \<le> timeEvicted info') \<and>
           (\<forall>k'. EvictedTxCache_Get (EvictedTxCache_Push c w t1 t2 ord) k' =
               (if k' = k then None else EvictedTxCache_Get (EvictedTxCache_Push_store c w t1) k')) \<and>
           Suc (length (ev_cache (EvictedTxCache_Push c w t1 t2 ord))) =
             length (ev_cache (EvictedTxCache_Push_store c w t1))"
proof -
  let ?c1 = "EvictedTxCache_Push_store c w t1"
  let ?m = "ev_cache ?c1"
  let ?v = "fst (foldl oldest_step (wtx_key w, t2) (go_range ord ?m))"
  have d: "distinct (map fst ?m)" by (rule ev_store_distinct[OF assms(1)])
  obtain i where i: "(?v, i) \<in> set ?m" and
    le: "\<forall>(k', i') \<in> set ?m. timeEvicted i \<le> timeEvicted i'"
    using ev_victim_min[OF assms(1-3)] by blast
  have push: "EvictedTxCache_Push c w t1 t2 ord = ?c1\<lparr>ev_cache := AList.delete ?v ?m\<rparr>"
    using assms(4) by (simp add: EvictedTxCache_Push_def Let_def ev_store_staticSize)
  have 1: "EvictedTxCache_Get ?c1 ?v = Some i"
    using d i by (simp add: EvictedTxCache_Get_def)
  have 2: "\<forall>k' info'. EvictedTxCache_Get ?c1 k' = Some info' \<longrightarrow> timeEvicted i \<le> timeEvicted info'"
  proof (intro allI impI)
    fix k' info' assume "EvictedTxCache_Get ?c1 k' = Some info'"
    then have "(k', info') \<in> set ?m" by (simp add: EvictedTxCache_Get_def map_of_SomeD)
    then show "timeEvicted i \<le> timeEvicted info'" using le by blast
  qed
  have 3: "\<forall>k'. EvictedTxCache_Get (EvictedTxCache_Push c w t1 t2 ord) k' =
               (if k' = ?v then None else EvictedTxCache_Get ?c1 k')"
    by (simp add: push EvictedTxCache_Get_def AList.delete_conv')
  have "?v \<in> fst ` set ?m" using i by (force simp: image_iff)
  then have 4: "Suc (length (ev_cache (EvictedTxCache_Push c w t1 t2 ord))) = length ?m"
    by (simp add: push length_delete_present[OF d])
  show ?thesis using 1 2 3 4 by blast
qed

lemma ev_pushes_overflow:
  assumes len: "length ps = Suc M"
    and keys: "distinct (map (fst \<circ> ev_entry) ps)"
    and times: "sorted_wrt (<) (map (timeEvicted \<circ> snd \<circ> ev_entry) ps)"
    and env: "\<forall>(w, now1, now2, ord) \<in> set ps.
                 now1 \<le> now2 \<and> distinct ord \<and> (fst \<circ> ev_entry) ` set ps \<subseteq> set ord"
  shows "ev_cache (ev_pushes (NewEvictedTxCache (int M)) ps) = map ev_entry (tl ps)"
proof -
  let ?new = "NewEvictedTxCache (int M) :: 'a EvictedTxCache"
  obtain qs p where ps: "ps = qs @ [p]" using len by (cases ps rule: rev_cases) auto
  obtain w t1 t2 ord where p: "p = (w, t1, t2, ord)" by (cases p)
  obtain p0 rest where ps0: "ps = p0 # rest" using len by (cases ps) auto
  have lq: "length qs = M" using len ps by simp
  let ?cq = "ev_pushes ?new qs"
  have cq: "ev_cache ?cq = map ev_entry qs"
    using ev_pushes_fill[of ?new qs] keys lq unfolding ps
    by (simp add: NewEvictedTxCache_def)
  have dq: "distinct (map fst (ev_cache ?cq))"
    unfolding ev_pushes_def by (rule ev_distinct_reachable)
  have szq: "ev_staticSize ?cq = int M"
    by (simp add: ev_pushes_def ev_staticSize_calls NewEvictedTxCache_def)
  let ?c1 = "EvictedTxCache_Push_store ?cq w t1"
  have newk: "wtx_key w \<notin> fst ` set (ev_cache ?cq)"
    using keys unfolding ps p cq by (auto simp: comp_def image_iff)
  have m1: "ev_cache ?c1 = map ev_entry ps"
    using newk by (simp add: EvictedTxCache_Push_store_def update_new cq ps p)
  have envp: "t1 \<le> t2 \<and> distinct ord \<and> (fst \<circ> ev_entry) ` set ps \<subseteq> set ord"
    using env unfolding ps p by simp
  have ro: "range_order ord (ev_cache ?c1)"
    using envp unfolding m1 range_order_def by (auto simp: comp_def image_iff)
  have over: "ev_staticSize ?cq < int (length (ev_cache ?c1))"
    using len by (simp add: szq m1)
  let ?v = "fst (foldl oldest_step (wtx_key w, t2) (go_range ord (ev_cache ?c1)))"
  have push: "EvictedTxCache_Push ?cq w t1 t2 ord = ?c1\<lparr>ev_cache := AList.delete ?v (ev_cache ?c1)\<rparr>"
    using over by (simp add: EvictedTxCache_Push_def Let_def ev_store_staticSize)
  obtain i where i: "(?v, i) \<in> set (ev_cache ?c1)" and
    le: "\<forall>(k', i') \<in> set (ev_cache ?c1). timeEvicted i \<le> timeEvicted i'"
    using ev_victim_min[OF dq conjunct1[OF envp] ro] by blast
  have first: "timeEvicted i \<le> timeEvicted (snd (ev_entry p0))"
    using le unfolding m1 ps0 by (cases "ev_entry p0") auto
  have later: "\<forall>q \<in> set rest. timeEvicted (snd (ev_entry p0)) < timeEvicted (snd (ev_entry q))"
    using times unfolding ps0 by simp
  have "(?v, i) \<in> set (map ev_entry (p0 # rest))" using i unfolding m1 ps0 .
  then have "(?v, i) = ev_entry p0 \<or> (\<exists>q \<in> set rest. (?v, i) = ev_entry q)" by auto
  then have v: "(?v, i) = ev_entry p0"
  proof
    assume "(?v, i) = ev_entry p0" then show ?thesis .
  next
    assume "\<exists>q \<in> set rest. (?v, i) = ev_entry q"
    then obtain q where q: "q \<in> set rest" "(?v, i) = ev_entry q" by blast
    have "i = snd (ev_entry q)" using q(2) by (metis snd_conv)
    then have False using later q(1) first by force
    then show ?thesis ..
  qed
  have v0: "?v = fst (ev_entry p0)" using v by (metis fst_conv)
  have "fst (ev_entry p0) \<notin> fst ` set (map ev_entry rest)"
    using keys unfolding ps0 by (auto simp: comp_def image_iff)
  then have del: "AList.delete (fst (ev_entry p0)) (map ev_entry ps) = map ev_entry rest"
    unfolding ps0 by (cases "ev_entry p0") (simp add: AList.delete_id)
  have "ev_pushes ?new ps = EvictedTxCache_Push ?cq w t1 t2 ord"
    unfolding ps p by (rule ev_pushes_snoc)
  then have "ev_cache (ev_pushes ?new ps) = AList.delete ?v (ev_cache ?c1)"
    by (simp only: push) simp
  also have "\<dots> = AList.delete (fst (ev_entry p0)) (map ev_entry ps)"
    using v0 by (simp only: m1)
  also have "\<dots> = map ev_entry rest" by (rule del)
  finally show ?thesis by (simp add: ps0)
qed


text \<open>
  Claim C2, in three parts, for an eviction-history cache built with capacity \<open>N \<ge> 0\<close>
  and a clock that does not go back between the two readings of one \<open>Push\<close>.
  (1) After every sequence of calls the number of records is at most \<open>N\<close>.
  (2) When the insertion of \<open>Push\<close> makes the size exceed the capacity, \<open>Push\<close> removes
  exactly one record of the cache after the insertion, one whose eviction time is minimal
  among all its records; every other key keeps its record.
  (3) After \<open>M + 1\<close> pushes with distinct keys and strictly increasing eviction times
  into a fresh cache of capacity \<open>M\<close>, the size is \<open>M\<close>, the record pushed first (the
  earliest) is absent and every later one is present.
\<close>

theorem ev_Push_keeps_capacity:
  fixes c :: "'k EvictedTxCache" and cs cs' :: "'k ev_call list" and ps :: "'k ev_push list"
  shows
   "(0 \<le> N \<longrightarrow> int (length (ev_cache (ev_calls (NewEvictedTxCache N) cs))) \<le> N) \<and>
    (c = ev_calls (NewEvictedTxCache N') cs' \<and> now1 \<le> now2 \<and>
     range_order ord (ev_cache (EvictedTxCache_Push_store c wtx now1)) \<and>
     ev_staticSize c < int (length (ev_cache (EvictedTxCache_Push_store c wtx now1))) \<longrightarrow>
       (\<exists>k info.
           EvictedTxCache_Get (EvictedTxCache_Push_store c wtx now1) k = Some info \<and>
           (\<forall>k' info'. EvictedTxCache_Get (EvictedTxCache_Push_store c wtx now1) k' = Some info'
               \<longrightarrow> timeEvicted info \<le> timeEvicted info') \<and>
           (\<forall>k'. EvictedTxCache_Get (EvictedTxCache_Push c wtx now1 now2 ord) k' =
               (if k' = k then None
                else EvictedTxCache_Get (EvictedTxCache_Push_store c wtx now1) k')) \<and>
           Suc (length (ev_cache (EvictedTxCache_Push c wtx now1 now2 ord))) =
             length (ev_cache (EvictedTxCache_Push_store c wtx now1)))) \<and>
    (length ps = Suc M \<and> distinct (map (fst \<circ> ev_entry) ps) \<and>
     sorted_wrt (<) (map (timeEvicted \<circ> snd \<circ> ev_entry) ps) \<and>
     (\<forall>(w, t1, t2, ord) \<in> set ps.
         t1 \<le> t2 \<and> distinct ord \<and> (fst \<circ> ev_entry) ` set ps \<subseteq> set ord) \<longrightarrow>
       length (ev_cache (ev_pushes (NewEvictedTxCache (int M)) ps)) = M \<and>
       \<not> EvictedTxCache_Has (ev_pushes (NewEvictedTxCache (int M)) ps) (fst (ev_entry (hd ps))) \<and>
       (\<forall>p \<in> set (tl ps).
          EvictedTxCache_Get (ev_pushes (NewEvictedTxCache (int M)) ps) (fst (ev_entry p)) =
            Some (snd (ev_entry p))))"
proof (intro conjI impI)
  assume N: "0 \<le> N"
  let ?new = "NewEvictedTxCache N :: 'k EvictedTxCache"
  have "int (length (ev_cache (ev_calls ?new cs))) \<le> ev_staticSize ?new"
    by (rule ev_calls_length) (use N in \<open>simp_all add: NewEvictedTxCache_def\<close>)
  then show "int (length (ev_cache (ev_calls ?new cs))) \<le> N"
    by (simp add: NewEvictedTxCache_def)
next
  assume a: "c = ev_calls (NewEvictedTxCache N') cs' \<and> now1 \<le> now2 \<and>
     range_order ord (ev_cache (EvictedTxCache_Push_store c wtx now1)) \<and>
     ev_staticSize c < int (length (ev_cache (EvictedTxCache_Push_store c wtx now1)))"
  have d: "distinct (map fst (ev_cache c))"
    using a ev_distinct_reachable[of N' cs'] by simp
  show "\<exists>k info.
           EvictedTxCache_Get (EvictedTxCache_Push_store c wtx now1) k = Some info \<and>
           (\<forall>k' info'. EvictedTxCache_Get (EvictedTxCache_Push_store c wtx now1) k' = Some info'
               \<longrightarrow> timeEvicted info \<le> timeEvicted info') \<and>
           (\<forall>k'. EvictedTxCache_Get (EvictedTxCache_Push c wtx now1 now2 ord) k' =
               (if k' = k then None
                else EvictedTxCache_Get (EvictedTxCache_Push_store c wtx now1) k')) \<and>
           Suc (length (ev_cache (EvictedTxCache_Push c wtx now1 now2 ord))) =
             length (ev_cache (EvictedTxCache_Push_store c wtx now1))"
    by (rule ev_Push_over_capacity[OF d conjunct1[OF conjunct2[OF a]]
          conjunct1[OF conjunct2[OF conjunct2[OF a]]] conjunct2[OF conjunct2[OF conjunct2[OF a]]]])
next
  assume a: "length ps = Suc M \<and> distinct (map (fst \<circ> ev_entry) ps) \<and>
     sorted_wrt (<) (map (timeEvicted \<circ> snd \<circ> ev_entry) ps) \<and>
     (\<forall>(w, t1, t2, ord) \<in> set ps.
         t1 \<le> t2 \<and> distinct ord \<and> (fst \<circ> ev_entry) ` set ps \<subseteq> set ord)"
  let ?c = "ev_pushes (NewEvictedTxCache (int M)) ps"
  have m: "ev_cache ?c = map ev_entry (tl ps)"
    by (rule ev_pushes_overflow) (use a in simp_all)
  obtain p0 rest where ps0: "ps = p0 # rest" using a by (cases ps) auto
  have dr: "distinct (map fst (map ev_entry rest))"
    using a unfolding ps0 by (simp add: comp_def)
  have nin: "fst (ev_entry p0) \<notin> fst ` set (map ev_entry rest)"
    using a unfolding ps0 by (auto simp: comp_def image_iff)
  have sel: "hd ps = p0" "tl ps = rest" by (simp_all add: ps0)
  show "length (ev_cache ?c) = M" using a by (simp add: m)
  show "\<not> EvictedTxCache_Has ?c (fst (ev_entry (hd ps)))"
    unfolding EvictedTxCache_Has_def m sel using nin by (simp add: map_of_eq_None_iff)
  show "\<forall>p \<in> set (tl ps). EvictedTxCache_Get ?c (fst (ev_entry p)) = Some (snd (ev_entry p))"
  proof
    fix p assume "p \<in> set (tl ps)"
    then have "(fst (ev_entry p), snd (ev_entry p)) \<in> set (map ev_entry rest)"
      unfolding sel by simp
    then show "EvictedTxCache_Get ?c (fst (ev_entry p)) = Some (snd (ev_entry p))"
      unfolding EvictedTxCache_Get_def m sel by (rule map_of_is_SomeI[OF dr])
  qed
qed

theorem ev_Push_keeps_capacity_witness:
  "int (length (ev_cache (ev_calls (NewEvictedTxCache 1)
      [EV_Push (example_tx (3::nat)) 10 10 [], EV_Push (example_tx 4) 20 21 [4, 3]]))) \<le> 1 \<and>
   (\<exists>k info.
      EvictedTxCache_Get (EvictedTxCache_Push_store
        (ev_calls (NewEvictedTxCache 1) [EV_Push (example_tx (3::nat)) 10 10 []])
        (example_tx 4) 20) k = Some info \<and>
      (\<forall>k'. EvictedTxCache_Get (EvictedTxCache_Push
        (ev_calls (NewEvictedTxCache 1) [EV_Push (example_tx (3::nat)) 10 10 []])
        (example_tx 4) 20 21 [4, 3]) k' =
          (if k' = k then None
           else EvictedTxCache_Get (EvictedTxCache_Push_store
             (ev_calls (NewEvictedTxCache 1) [EV_Push (example_tx (3::nat)) 10 10 []])
             (example_tx 4) 20) k'))) \<and>
   length (ev_cache (ev_pushes (NewEvictedTxCache 1)
      [(example_tx (3::nat), 10, 10, [3, 4]), (example_tx 4, 20, 21, [4, 3])])) = 1 \<and>
   \<not> EvictedTxCache_Has (ev_pushes (NewEvictedTxCache 1)
      [(example_tx (3::nat), 10, 10, [3, 4]), (example_tx 4, 20, 21, [4, 3])]) 3 \<and>
   EvictedTxCache_Get (ev_pushes (NewEvictedTxCache 1)
      [(example_tx (3::nat), 10, 10, [3, 4]), (example_tx 4, 20, 21, [4, 3])]) 4 =
     Some (new_EvictedTxInfo (example_tx (4::nat)) 20)"
proof -
  let ?c = "ev_calls (NewEvictedTxCache 1) [EV_Push (example_tx (3::nat)) 10 10 []]"
  let ?ps = "[(example_tx (3::nat), 10::int, 10::int, [3, 4]), (example_tx 4, 20, 21, [4, 3])]"
  have st: "ev_cache (EvictedTxCache_Push_store ?c (example_tx 4) 20) =
      [(3, new_EvictedTxInfo (example_tx (3::nat)) 10),
       (4, new_EvictedTxInfo (example_tx (4::nat)) 20)]"
    by (simp add: ev_calls_def NewEvictedTxCache_def EvictedTxCache_Push_def
        EvictedTxCache_Push_store_def example_tx_def)
  have ro: "range_order [4, 3] (ev_cache (EvictedTxCache_Push_store ?c (example_tx 4) 20))"
    by (simp add: st range_order_def)
  have over: "ev_staticSize ?c < int (length (ev_cache (EvictedTxCache_Push_store ?c (example_tx 4) 20)))"
    unfolding st by (simp add: ev_staticSize_calls NewEvictedTxCache_def)
  have h3: "length ?ps = Suc 1 \<and> distinct (map (fst \<circ> ev_entry) ?ps) \<and>
     sorted_wrt (<) (map (timeEvicted \<circ> snd \<circ> ev_entry) ?ps) \<and>
     (\<forall>(w, t1, t2, ord) \<in> set ?ps.
         t1 \<le> t2 \<and> distinct ord \<and> (fst \<circ> ev_entry) ` set ?ps \<subseteq> set ord)"
    by (simp add: example_tx_def new_EvictedTxInfo_def)
  note t = ev_Push_keeps_capacity[where N = 1 and N' = 1
      and cs = "[EV_Push (example_tx (3::nat)) 10 10 [], EV_Push (example_tx 4) 20 21 [4, 3]]"
      and c = ?c and cs' = "[EV_Push (example_tx (3::nat)) 10 10 []]"
      and wtx = "example_tx 4" and ?now1.0 = 20 and ?now2.0 = 21 and ord = "[4, 3]"
      and ps = ?ps and M = 1]
  have a: "int (length (ev_cache (ev_calls (NewEvictedTxCache 1)
      [EV_Push (example_tx (3::nat)) 10 10 [], EV_Push (example_tx 4) 20 21 [4, 3]]))) \<le> 1"
    using t by simp
  have b: "\<exists>k info.
      EvictedTxCache_Get (EvictedTxCache_Push_store ?c (example_tx 4) 20) k = Some info \<and>
      (\<forall>k'. EvictedTxCache_Get (EvictedTxCache_Push ?c (example_tx 4) 20 21 [4, 3]) k' =
          (if k' = k then None
           else EvictedTxCache_Get (EvictedTxCache_Push_store ?c (example_tx 4) 20) k'))"
  proof -
    have hb: "?c = ev_calls (NewEvictedTxCache 1) [EV_Push (example_tx (3::nat)) 10 10 []] \<and>
        (20::int) \<le> 21 \<and>
        range_order [4, 3] (ev_cache (EvictedTxCache_Push_store ?c (example_tx 4) 20)) \<and>
        ev_staticSize ?c < int (length (ev_cache (EvictedTxCache_Push_store ?c (example_tx 4) 20)))"
      using ro over by simp
    show ?thesis
      using t[THEN conjunct2, THEN conjunct1, THEN mp, OF hb] by blast
  qed
  have c: "length (ev_cache (ev_pushes (NewEvictedTxCache 1) ?ps)) = 1 \<and>
       \<not> EvictedTxCache_Has (ev_pushes (NewEvictedTxCache 1) ?ps) (fst (ev_entry (hd ?ps))) \<and>
       (\<forall>p \<in> set (tl ?ps).
          EvictedTxCache_Get (ev_pushes (NewEvictedTxCache 1) ?ps) (fst (ev_entry p)) =
            Some (snd (ev_entry p)))"
    using t h3 by simp
  show ?thesis using a b c by (simp add: example_tx_def)
qed

subsection \<open>Properties of SeenTxSet\<close>


lemma set_update_subset: "set (AList.update k v m) \<subseteq> insert (k, v) (set m)"
  by (induction m) auto

lemma set_delete_subset: "set (AList.delete k m) \<subseteq> set m"
  by (auto simp: AList.delete_eq)

lemma peers_wf_update: "peers_wf ps \<Longrightarrow> p \<noteq> 0 \<Longrightarrow> peers_wf (AList.update p True ps)"
  unfolding peers_wf_def using set_update_subset[of p True ps]
  by (auto simp: AList.distinct_update)

lemma peers_wf_delete: "peers_wf ps \<Longrightarrow> peers_wf (AList.delete p ps)"
  unfolding peers_wf_def using set_delete_subset[of p ps]
  by (auto simp: AList.distinct_delete)

lemma seen_wf_update:
  assumes "seen_wf s" "peers_wf (peers r)"
  shows "seen_wf (s\<lparr>seen_set := AList.update k r (seen_set s)\<rparr>)"
  using assms set_update_subset[of k r "seen_set s"]
  unfolding seen_wf_def by (auto simp: AList.distinct_update)

lemma seen_wf_delete:
  assumes "seen_wf s"
  shows "seen_wf (s\<lparr>seen_set := AList.delete k (seen_set s)\<rparr>)"
  using assms set_delete_subset[of k "seen_set s"]
  unfolding seen_wf_def by (auto simp: AList.distinct_delete)

lemma seen_wf_lookup:
  "seen_wf s \<Longrightarrow> map_of (seen_set s) k = Some r \<Longrightarrow> peers_wf (peers r)"
  unfolding seen_wf_def by (auto dest: map_of_SomeD)

lemma seen_prune_fold:
  "foldl (seen_prune_step limit) m xs =
     filter (\<lambda>(k, r). \<not> (\<exists>r'. (k, r') \<in> set xs \<and> time_seen r' < limit)) m"
proof (induction xs arbitrary: m)
  case Nil
  then show ?case by simp
next
  case (Cons x xs)
  obtain k r where x: "x = (k, r)" by (cases x)
  show ?case
    unfolding x by (auto simp: Cons.IH AList.delete_eq intro!: filter_cong)
qed

lemma seen_wf_Add: "seen_wf s \<Longrightarrow> seen_wf (SeenTxSet_Add s k p now)"
proof (cases "map_of (seen_set s) k")
  case None
  assume "seen_wf s"
  then show ?thesis using None
    by (auto simp: SeenTxSet_Add_def intro!: seen_wf_update simp: peers_wf_def)
next
  case (Some r)
  assume wf: "seen_wf s"
  show ?thesis using Some wf seen_wf_lookup[OF wf Some]
    by (auto simp: SeenTxSet_Add_def intro!: seen_wf_update peers_wf_update)
qed

lemma seen_wf_Pop: "seen_wf s \<Longrightarrow> seen_wf (snd (SeenTxSet_Pop s k ord))"
  by (auto simp: SeenTxSet_Pop_def split: option.splits list.splits
      intro!: seen_wf_update peers_wf_delete dest: seen_wf_lookup)

lemma seen_wf_Remove: "seen_wf s \<Longrightarrow> seen_wf (SeenTxSet_Remove s k p)"
  by (auto simp: SeenTxSet_Remove_def split: option.splits
      intro!: seen_wf_update seen_wf_delete peers_wf_delete dest: seen_wf_lookup)

lemma seen_wf_Prune: "seen_wf s \<Longrightarrow> seen_wf (SeenTxSet_Prune s limit ord)"
  unfolding seen_wf_def SeenTxSet_Prune_def seen_prune_fold
  by (auto simp: distinct_map_filter)

lemma seen_wf_step: "seen_wf s \<Longrightarrow> seen_wf (seen_step s x)"
proof (cases x)
  case (Seen_RemoveKey k)
  assume "seen_wf s"
  then show ?thesis using Seen_RemoveKey by (simp add: SeenTxSet_RemoveKey_def seen_wf_delete)
next
  case Seen_Reset
  then show ?thesis by (simp add: SeenTxSet_Reset_def seen_wf_def)
qed (simp_all add: seen_wf_Add seen_wf_Pop seen_wf_Remove seen_wf_Prune)

lemma seen_wf_calls: "seen_wf s \<Longrightarrow> seen_wf (seen_calls s cs)"
  unfolding seen_calls_def by (induction cs arbitrary: s) (simp_all add: seen_wf_step)

lemma seen_wf_reachable: "seen_wf (seen_calls NewSeenTxSet cs)"
  by (rule seen_wf_calls) (simp add: seen_wf_def NewSeenTxSet_def)


lemma peers_wf_lookup: "peers_wf ps \<Longrightarrow> map_of ps p = Some b \<Longrightarrow> b \<and> p \<noteq> 0"
  unfolding peers_wf_def by (auto dest: map_of_SomeD)

lemma seen_Has_Get:
  assumes "seen_wf s"
  shows "SeenTxSet_Has s k p \<longleftrightarrow> (\<exists>ps. SeenTxSet_Get s k = Some ps \<and> p \<in> ps)"
proof (cases "map_of (seen_set s) k")
  case None
  then show ?thesis by (simp add: SeenTxSet_Has_def SeenTxSet_Get_def)
next
  case (Some r)
  note wf = seen_wf_lookup[OF assms Some]
  show ?thesis
  proof (cases "map_of (peers r) p")
    case None
    then have "p \<notin> fst ` set (peers r)" by (simp add: map_of_eq_None_iff)
    then show ?thesis using Some None by (simp add: SeenTxSet_Has_def SeenTxSet_Get_def)
  next
    case (Some b)
    then have "(p, b) \<in> set (peers r)" by (rule map_of_SomeD)
    then have "p \<in> fst ` set (peers r)" by (force simp: image_iff)
    then show ?thesis using \<open>map_of (seen_set s) k = Some r\<close> Some peers_wf_lookup[OF wf Some]
      by (simp add: SeenTxSet_Has_def SeenTxSet_Get_def)
  qed
qed

lemma seen_no_zero:
  assumes "seen_wf s"
  shows "\<not> SeenTxSet_Has s k 0"
proof
  assume "SeenTxSet_Has s k 0"
  then obtain r b where r: "map_of (seen_set s) k = Some r" and b: "map_of (peers r) 0 = Some b"
    by (auto simp: SeenTxSet_Has_def split: option.splits)
  show False using peers_wf_lookup[OF seen_wf_lookup[OF assms r] b] by simp
qed

text \<open>
  Claim C7. In every state the seen-set can reach, \<open>Add key 0\<close> leaves the state as it
  is; afterwards \<open>Has k' 0\<close> is false and \<open>Get k'\<close> is what it was, for every key
  \<open>k'\<close>. The peer 0 is in no peer set that \<open>Get\<close> returns, and on a new seen-set
  \<open>Get key\<close> is still absent after \<open>Add key 0\<close>.
\<close>

theorem seen_Add_zero_noop:
  "SeenTxSet_Add (seen_calls NewSeenTxSet cs) k 0 now = seen_calls NewSeenTxSet cs \<and>
   SeenTxSet_Has (SeenTxSet_Add (seen_calls NewSeenTxSet cs) k 0 now) k' 0 = False \<and>
   SeenTxSet_Get (SeenTxSet_Add (seen_calls NewSeenTxSet cs) k 0 now) k' =
     SeenTxSet_Get (seen_calls NewSeenTxSet cs) k' \<and>
   0 \<notin> (case SeenTxSet_Get (seen_calls NewSeenTxSet cs) k' of None \<Rightarrow> {} | Some ps \<Rightarrow> ps) \<and>
   SeenTxSet_Get (SeenTxSet_Add NewSeenTxSet k 0 now) k = None"
proof -
  let ?s = "seen_calls NewSeenTxSet cs :: 'a SeenTxSet"
  have wf: "seen_wf ?s" by (rule seen_wf_reachable)
  have a: "SeenTxSet_Add ?s k 0 now = ?s" by (simp add: SeenTxSet_Add_def)
  have h: "\<not> SeenTxSet_Has ?s k' 0" by (rule seen_no_zero[OF wf])
  then have z: "0 \<notin> (case SeenTxSet_Get ?s k' of None \<Rightarrow> {} | Some ps \<Rightarrow> ps)"
    unfolding seen_Has_Get[OF wf] by (auto split: option.splits)
  have n: "SeenTxSet_Get (SeenTxSet_Add NewSeenTxSet k 0 now) k = None"
    by (simp add: SeenTxSet_Add_def SeenTxSet_Get_def NewSeenTxSet_def)
  show ?thesis using a h z n by simp
qed


lemma peers_card:
  "peers_wf ps \<Longrightarrow> card (set (map fst ps)) = length ps"
proof -
  assume "peers_wf ps"
  then have "distinct (map fst ps)" by (simp add: peers_wf_def)
  then have "card (set (map fst ps)) = length (map fst ps)" by (rule distinct_card)
  then show ?thesis by simp
qed

lemma seen_Remove_absent:
  "SeenTxSet_Get s k = None \<Longrightarrow> SeenTxSet_Remove s k p = s"
  by (simp add: SeenTxSet_Get_def SeenTxSet_Remove_def split: option.splits)

lemma seen_Remove_last:
  assumes "seen_wf s" "SeenTxSet_Get s k = Some ps" "card ps = 1"
  shows "SeenTxSet_Get (SeenTxSet_Remove s k p) k = None \<and>
         SeenTxSet_Len (SeenTxSet_Remove s k p) = SeenTxSet_Len s - 1 \<and>
         (\<forall>k'. k' \<noteq> k \<longrightarrow>
            map_of (seen_set (SeenTxSet_Remove s k p)) k' = map_of (seen_set s) k')"
proof -
  obtain r where r: "map_of (seen_set s) k = Some r" and ps: "ps = set (map fst (peers r))"
    using assms(2) by (auto simp: SeenTxSet_Get_def split: option.splits)
  have one: "length (peers r) = 1"
    using peers_card[OF seen_wf_lookup[OF assms(1) r]] assms(3) ps by simp
  have rm: "SeenTxSet_Remove s k p = s\<lparr>seen_set := AList.delete k (seen_set s)\<rparr>"
    using r one by (simp add: SeenTxSet_Remove_def)
  have d: "distinct (map fst (seen_set s))" using assms(1) by (simp add: seen_wf_def)
  have "k \<in> fst ` set (seen_set s)" using r by (metis map_of_eq_None_iff option.distinct(1))
  then have len: "Suc (length (AList.delete k (seen_set s))) = length (seen_set s)"
    by (rule length_delete_present[OF d])
  show ?thesis
    using len by (simp add: rm SeenTxSet_Get_def SeenTxSet_Len_def AList.delete_conv')
qed

lemma seen_Remove_other:
  assumes "seen_wf s" "SeenTxSet_Get s k = Some ps" "card ps \<noteq> 1"
  shows "SeenTxSet_Get (SeenTxSet_Remove s k p) k = Some (ps - {p}) \<and>
         SeenTxSet_Has (SeenTxSet_Remove s k p) k p = False \<and>
         (\<forall>p'. p' \<noteq> p \<longrightarrow>
            SeenTxSet_Has (SeenTxSet_Remove s k p) k p' = SeenTxSet_Has s k p') \<and>
         map_option time_seen (map_of (seen_set (SeenTxSet_Remove s k p)) k) =
           map_option time_seen (map_of (seen_set s) k) \<and>
         SeenTxSet_Len (SeenTxSet_Remove s k p) = SeenTxSet_Len s \<and>
         (\<forall>k'. k' \<noteq> k \<longrightarrow>
            map_of (seen_set (SeenTxSet_Remove s k p)) k' = map_of (seen_set s) k')"
proof -
  obtain r where r: "map_of (seen_set s) k = Some r" and ps: "ps = set (map fst (peers r))"
    using assms(2) by (auto simp: SeenTxSet_Get_def split: option.splits)
  have notone: "length (peers r) \<noteq> 1"
    using peers_card[OF seen_wf_lookup[OF assms(1) r]] assms(3) ps by simp
  have rm: "SeenTxSet_Remove s k p =
      s\<lparr>seen_set := AList.update k (r\<lparr>peers := AList.delete p (peers r)\<rparr>) (seen_set s)\<rparr>"
    using r notone by (simp add: SeenTxSet_Remove_def)
  have kin: "k \<in> fst ` set (seen_set s)" using r by (metis map_of_eq_None_iff option.distinct(1))
  have g: "SeenTxSet_Get (SeenTxSet_Remove s k p) k = Some (ps - {p})"
    by (auto simp: rm SeenTxSet_Get_def AList.update_conv' AList.delete_keys ps)
  have h1: "SeenTxSet_Has (SeenTxSet_Remove s k p) k p = False"
    by (simp add: rm SeenTxSet_Has_def AList.update_conv' AList.delete_conv')
  have h2: "\<forall>p'. p' \<noteq> p \<longrightarrow>
      SeenTxSet_Has (SeenTxSet_Remove s k p) k p' = SeenTxSet_Has s k p'"
    using r by (simp add: rm SeenTxSet_Has_def AList.update_conv' AList.delete_conv')
  have t: "map_option time_seen (map_of (seen_set (SeenTxSet_Remove s k p)) k) =
           map_option time_seen (map_of (seen_set s) k)"
    using r by (simp add: rm AList.update_conv')
  have l: "SeenTxSet_Len (SeenTxSet_Remove s k p) = SeenTxSet_Len s"
    using kin by (simp add: rm SeenTxSet_Len_def length_update)
  have o: "\<forall>k'. k' \<noteq> k \<longrightarrow>
      map_of (seen_set (SeenTxSet_Remove s k p)) k' = map_of (seen_set s) k'"
    by (simp add: rm AList.update_conv')
  show ?thesis using g h1 h2 t l o by blast
qed

lemma seen_Remove_scenario:
  assumes "SeenTxSet_Get s k = None" "p1 \<noteq> 0" "p2 \<noteq> 0" "p1 \<noteq> p2"
  shows "SeenTxSet_Has (SeenTxSet_Remove (SeenTxSet_Add (SeenTxSet_Add s k p1 t1) k p2 t2) k p1) k p2 \<and>
         \<not> SeenTxSet_Has (SeenTxSet_Remove (SeenTxSet_Add (SeenTxSet_Add s k p1 t1) k p2 t2) k p1) k p1 \<and>
         SeenTxSet_Get (SeenTxSet_Remove
            (SeenTxSet_Remove (SeenTxSet_Add (SeenTxSet_Add s k p1 t1) k p2 t2) k p1) k p2) k = None"
proof -
  have n: "map_of (seen_set s) k = None"
    using assms(1) by (simp add: SeenTxSet_Get_def split: option.splits)
  let ?s1 = "SeenTxSet_Add s k p1 t1"
  have s1: "map_of (seen_set ?s1) k = Some \<lparr>peers = [(p1, True)], time_seen = t1\<rparr>"
    using n assms(2) by (simp add: SeenTxSet_Add_def AList.update_conv')
  let ?s2 = "SeenTxSet_Add ?s1 k p2 t2"
  have s2: "map_of (seen_set ?s2) k = Some \<lparr>peers = [(p1, True), (p2, True)], time_seen = t1\<rparr>"
    using assms(3,4) by (simp add: SeenTxSet_Add_def[of ?s1] s1 AList.update_conv')
  let ?s3 = "SeenTxSet_Remove ?s2 k p1"
  have s3: "map_of (seen_set ?s3) k = Some \<lparr>peers = [(p2, True)], time_seen = t1\<rparr>"
    using assms(4) by (simp add: SeenTxSet_Remove_def[of ?s2] s2 AList.update_conv')
  let ?s4 = "SeenTxSet_Remove ?s3 k p2"
  have s4: "map_of (seen_set ?s4) k = None"
    by (simp add: SeenTxSet_Remove_def[of ?s3] s3 AList.delete_conv')
  show ?thesis
    using assms(4) by (simp add: SeenTxSet_Has_def SeenTxSet_Get_def s3 s4)
qed

text \<open>
  Claim C8. In every state \<open>s\<close> the seen-set can reach, \<open>Remove k p\<close>
  (1) leaves the state as it is when \<open>k\<close> has no record;
  (2) deletes the record of \<open>k\<close>, and nothing else, when its peer set has exactly one
  member;
  (3) otherwise removes exactly \<open>p\<close> from the peer set of \<open>k\<close>: the other peers, the
  time of the record, the number of records and the records of the other keys stay.
  (4) When \<open>k\<close> has no record and \<open>p1\<close>, \<open>p2\<close> are two different peers other than 0:
  after \<open>Add k p1\<close>, \<open>Add k p2\<close>, \<open>Remove k p1\<close>, \<open>Has k p2\<close> is true and
  \<open>Has k p1\<close> is false, and after \<open>Remove k p2\<close> the record is gone.
\<close>

theorem seen_Remove_cases:
  assumes "s = seen_calls NewSeenTxSet cs"
  shows "(SeenTxSet_Get s k = None \<longrightarrow> SeenTxSet_Remove s k p = s) \<and>
    (\<forall>ps. SeenTxSet_Get s k = Some ps \<and> card ps = 1 \<longrightarrow>
       SeenTxSet_Get (SeenTxSet_Remove s k p) k = None \<and>
       SeenTxSet_Len (SeenTxSet_Remove s k p) = SeenTxSet_Len s - 1 \<and>
       (\<forall>k'. k' \<noteq> k \<longrightarrow>
          map_of (seen_set (SeenTxSet_Remove s k p)) k' = map_of (seen_set s) k')) \<and>
    (\<forall>ps. SeenTxSet_Get s k = Some ps \<and> card ps \<noteq> 1 \<longrightarrow>
       SeenTxSet_Get (SeenTxSet_Remove s k p) k = Some (ps - {p}) \<and>
       SeenTxSet_Has (SeenTxSet_Remove s k p) k p = False \<and>
       (\<forall>p'. p' \<noteq> p \<longrightarrow>
          SeenTxSet_Has (SeenTxSet_Remove s k p) k p' = SeenTxSet_Has s k p') \<and>
       map_option time_seen (map_of (seen_set (SeenTxSet_Remove s k p)) k) =
         map_option time_seen (map_of (seen_set s) k) \<and>
       SeenTxSet_Len (SeenTxSet_Remove s k p) = SeenTxSet_Len s \<and>
       (\<forall>k'. k' \<noteq> k \<longrightarrow>
          map_of (seen_set (SeenTxSet_Remove s k p)) k' = map_of (seen_set s) k')) \<and>
    (SeenTxSet_Get s k = None \<and> p1 \<noteq> 0 \<and> p2 \<noteq> 0 \<and> p1 \<noteq> p2 \<longrightarrow>
       SeenTxSet_Has (SeenTxSet_Remove (SeenTxSet_Add (SeenTxSet_Add s k p1 t1) k p2 t2) k p1) k p2 \<and>
       \<not> SeenTxSet_Has (SeenTxSet_Remove (SeenTxSet_Add (SeenTxSet_Add s k p1 t1) k p2 t2) k p1) k p1 \<and>
       SeenTxSet_Get (SeenTxSet_Remove
          (SeenTxSet_Remove (SeenTxSet_Add (SeenTxSet_Add s k p1 t1) k p2 t2) k p1) k p2) k = None)"
proof -
  have wf: "seen_wf s" unfolding assms by (rule seen_wf_reachable)
  show ?thesis
    using seen_Remove_absent[of s k p] seen_Remove_last[OF wf, of k _ p]
      seen_Remove_other[OF wf, of k _ p] seen_Remove_scenario[of s k p1 p2 t1 t2]
    by blast
qed


theorem seen_Remove_cases_witness:
  "SeenTxSet_Remove (NewSeenTxSet :: nat SeenTxSet) 3 5 = NewSeenTxSet \<and>
   SeenTxSet_Get (SeenTxSet_Remove (seen_calls NewSeenTxSet [Seen_Add (3::nat) 5 10]) 3 5) 3 = None \<and>
   SeenTxSet_Get (SeenTxSet_Remove
      (seen_calls NewSeenTxSet [Seen_Add (3::nat) 5 10, Seen_Add 3 6 11]) 3 5) 3 = Some {6} \<and>
   SeenTxSet_Has (SeenTxSet_Remove
      (SeenTxSet_Add (SeenTxSet_Add (NewSeenTxSet :: nat SeenTxSet) 3 5 10) 3 6 11) 3 5) 3 6 \<and>
   SeenTxSet_Get (SeenTxSet_Remove (SeenTxSet_Remove
      (SeenTxSet_Add (SeenTxSet_Add (NewSeenTxSet :: nat SeenTxSet) 3 5 10) 3 6 11) 3 5) 3 6) 3 = None"
proof -
  let ?s0 = "seen_calls NewSeenTxSet [] :: nat SeenTxSet"
  let ?s1 = "seen_calls NewSeenTxSet [Seen_Add (3::nat) 5 10]"
  let ?s2 = "seen_calls NewSeenTxSet [Seen_Add (3::nat) 5 10, Seen_Add 3 6 11]"
  have s0: "?s0 = NewSeenTxSet" by (simp add: seen_calls_def)
  have g0: "SeenTxSet_Get ?s0 3 = None"
    by (simp add: seen_calls_def SeenTxSet_Get_def NewSeenTxSet_def)
  have g1: "SeenTxSet_Get ?s1 3 = Some {5}"
    by (simp add: seen_calls_def SeenTxSet_Get_def SeenTxSet_Add_def NewSeenTxSet_def)
  have g2: "SeenTxSet_Get ?s2 3 = Some {5, 6}"
    by (simp add: seen_calls_def SeenTxSet_Get_def SeenTxSet_Add_def NewSeenTxSet_def)
  have c2: "card {5, 6 :: 16 word} \<noteq> 1" by simp
  have d2: "{5, 6 :: 16 word} - {5} = {6}" by auto
  note t0 = seen_Remove_cases[OF refl, where cs = "[]" and k = "3::nat" and p = 5
      and ?p1.0 = 5 and ?p2.0 = 6 and ?t1.0 = 10 and ?t2.0 = 11]
  note t1 = seen_Remove_cases[OF refl, where cs = "[Seen_Add (3::nat) 5 10]" and k = 3 and p = 5]
  note t2 = seen_Remove_cases[OF refl,
      where cs = "[Seen_Add (3::nat) 5 10, Seen_Add 3 6 11]" and k = 3 and p = 5]
  have a: "SeenTxSet_Remove (NewSeenTxSet :: nat SeenTxSet) 3 5 = NewSeenTxSet"
    using t0 g0 unfolding s0 by simp
  have b: "SeenTxSet_Get (SeenTxSet_Remove ?s1 3 5) 3 = None"
    using t1 g1 by simp
  have c: "SeenTxSet_Get (SeenTxSet_Remove ?s2 3 5) 3 = Some {6}"
    using t2 g2 c2 d2 by simp
  have d: "SeenTxSet_Has (SeenTxSet_Remove
      (SeenTxSet_Add (SeenTxSet_Add (NewSeenTxSet :: nat SeenTxSet) 3 5 10) 3 6 11) 3 5) 3 6 \<and>
   SeenTxSet_Get (SeenTxSet_Remove (SeenTxSet_Remove
      (SeenTxSet_Add (SeenTxSet_Add (NewSeenTxSet :: nat SeenTxSet) 3 5 10) 3 6 11) 3 5) 3 6) 3 = None"
    using t0 g0 unfolding s0 by simp
  show ?thesis using a b c d by simp
qed

text \<open>
  Claim C3 as stated fails for \<open>Pop\<close>: after \<open>Add 3 5\<close> on a new seen-set the record of
  key 3 has the single peer 5; \<open>Pop 3\<close> returns 5, and afterwards \<open>Get 3\<close> is the
  empty peer set, not absent, and \<open>Len\<close> is still 1.
\<close>

theorem seen_Pop_last_counterexample:
  "SeenTxSet_Get (SeenTxSet_Add NewSeenTxSet (3::nat) 5 10) 3 = Some {5} \<and>
   fst (SeenTxSet_Pop (SeenTxSet_Add NewSeenTxSet (3::nat) 5 10) 3 [5]) = 5 \<and>
   SeenTxSet_Get (snd (SeenTxSet_Pop (SeenTxSet_Add NewSeenTxSet (3::nat) 5 10) 3 [5])) 3 = Some {} \<and>
   SeenTxSet_Len (snd (SeenTxSet_Pop (SeenTxSet_Add NewSeenTxSet (3::nat) 5 10) 3 [5])) = 1"
  by (simp add: SeenTxSet_Get_def SeenTxSet_Add_def SeenTxSet_Pop_def SeenTxSet_Len_def
      NewSeenTxSet_def go_range_def)

lemma go_range_single:
  assumes "set (map fst m) = {p}" "p \<in> set ord"
  shows "\<exists>b xs. go_range ord m = (p, b) # xs"
proof -
  have sub: "\<forall>x \<in> set (go_range ord m). fst x = p"
  proof
    fix x assume "x \<in> set (go_range ord m)"
    then have "x \<in> set m" using set_go_range_subset[of ord m] by blast
    then have "fst x \<in> set (map fst m)" by simp
    then show "fst x = p" using assms(1) by simp
  qed
  obtain b where b: "map_of m p = Some b"
    using assms(1) by (metis image_set insertI1 map_of_eq_None_iff not_None_eq)
  then have "(p, b) \<in> set (go_range ord m)"
    using assms(2) unfolding go_range_def by force
  then obtain x xs where c: "go_range ord m = x # xs" by (cases "go_range ord m") auto
  then have "fst x = p" using sub by simp
  then show ?thesis using c by (cases x) auto
qed

text \<open>
  Claim C3, amended. In every state \<open>s\<close> the seen-set can reach in which the peer set
  of \<open>k\<close> is \<open>{p}\<close>: \<open>Remove k p\<close> destroys the record (\<open>Get k\<close> is absent and
  \<open>Len\<close> is one less); \<open>Pop k\<close> returns \<open>p\<close> and keeps the record with an empty peer
  set (\<open>Get k\<close> is the empty set and \<open>Len\<close> is unchanged), whenever the range of
  \<open>Pop\<close> reaches \<open>p\<close>.
\<close>

theorem seen_last_peer_Remove_Pop:
  assumes "s = seen_calls NewSeenTxSet cs" and "SeenTxSet_Get s k = Some {p}"
  shows "SeenTxSet_Get (SeenTxSet_Remove s k p) k = None \<and>
         SeenTxSet_Len (SeenTxSet_Remove s k p) = SeenTxSet_Len s - 1 \<and>
         (p \<in> set ord \<longrightarrow>
            fst (SeenTxSet_Pop s k ord) = p \<and>
            SeenTxSet_Get (snd (SeenTxSet_Pop s k ord)) k = Some {} \<and>
            SeenTxSet_Len (snd (SeenTxSet_Pop s k ord)) = SeenTxSet_Len s)"
proof -
  have wf: "seen_wf s" unfolding assms(1) by (rule seen_wf_reachable)
  have rem: "SeenTxSet_Get (SeenTxSet_Remove s k p) k = None \<and>
         SeenTxSet_Len (SeenTxSet_Remove s k p) = SeenTxSet_Len s - 1"
    using seen_Remove_last[OF wf assms(2), of p] by simp
  obtain r where r: "map_of (seen_set s) k = Some r" and ps: "set (map fst (peers r)) = {p}"
    using assms(2) by (auto simp: SeenTxSet_Get_def split: option.splits)
  have kin: "k \<in> fst ` set (seen_set s)" using r by (metis map_of_eq_None_iff option.distinct(1))
  have pop: "fst (SeenTxSet_Pop s k ord) = p \<and>
            SeenTxSet_Get (snd (SeenTxSet_Pop s k ord)) k = Some {} \<and>
            SeenTxSet_Len (snd (SeenTxSet_Pop s k ord)) = SeenTxSet_Len s" if pin: "p \<in> set ord"
  proof -
    obtain b xs where g: "go_range ord (peers r) = (p, b) # xs"
      using go_range_single[OF ps pin] by blast
    have e: "set (map fst (AList.delete p (peers r))) = {}"
      using ps by (simp add: AList.delete_keys)
    have "SeenTxSet_Pop s k ord =
        (p, s\<lparr>seen_set := AList.update k (r\<lparr>peers := AList.delete p (peers r)\<rparr>) (seen_set s)\<rparr>)"
      by (simp add: SeenTxSet_Pop_def r g)
    then show ?thesis
      using kin e by (simp add: SeenTxSet_Get_def SeenTxSet_Len_def AList.update_conv' length_update)
  qed
  show ?thesis using rem pop by blast
qed

theorem seen_last_peer_Remove_Pop_witness:
  "SeenTxSet_Get (SeenTxSet_Remove (seen_calls NewSeenTxSet [Seen_Add (3::nat) 5 10]) 3 5) 3 = None \<and>
   fst (SeenTxSet_Pop (seen_calls NewSeenTxSet [Seen_Add (3::nat) 5 10]) 3 [6, 5]) = 5 \<and>
   SeenTxSet_Get (snd (SeenTxSet_Pop (seen_calls NewSeenTxSet [Seen_Add (3::nat) 5 10]) 3 [6, 5])) 3
     = Some {}"
proof -
  have g: "SeenTxSet_Get (seen_calls NewSeenTxSet [Seen_Add (3::nat) 5 10]) 3 = Some {5}"
    by (simp add: seen_calls_def SeenTxSet_Get_def SeenTxSet_Add_def NewSeenTxSet_def)
  show ?thesis
    using seen_last_peer_Remove_Pop[OF refl g, of "[6, 5]"] by simp
qed

text \<open>
  Claim C9. For each of the three structures, in every state it can reach from a new
  instance, \<open>Reset\<close> gives the state of a new instance of the same capacity; so \<open>Has\<close>
  of the dedup cache, \<open>Has\<close> and \<open>Get\<close> of the eviction-history cache, and \<open>Has\<close>,
  \<open>Get\<close> and \<open>Len\<close> of the seen-set return after \<open>Reset\<close> what they return on the new
  instance.
\<close>

theorem Reset_like_new:
  fixes k :: 'k and lcs :: "'k lru_call list" and ecs :: "'k ev_call list"
    and scs :: "'k seen_call list"
  shows
  "LRUTxCache_Reset (lru_calls (NewLRUTxCache N) lcs) = NewLRUTxCache N \<and>
   LRUTxCache_Has (LRUTxCache_Reset (lru_calls (NewLRUTxCache N) lcs)) k =
     LRUTxCache_Has (NewLRUTxCache N) k \<and>
   EvictedTxCache_Reset (ev_calls (NewEvictedTxCache M) ecs) = NewEvictedTxCache M \<and>
   EvictedTxCache_Has (EvictedTxCache_Reset (ev_calls (NewEvictedTxCache M) ecs)) k =
     EvictedTxCache_Has (NewEvictedTxCache M) k \<and>
   EvictedTxCache_Get (EvictedTxCache_Reset (ev_calls (NewEvictedTxCache M) ecs)) k =
     EvictedTxCache_Get (NewEvictedTxCache M) k \<and>
   SeenTxSet_Reset (seen_calls NewSeenTxSet scs) = NewSeenTxSet \<and>
   SeenTxSet_Has (SeenTxSet_Reset (seen_calls NewSeenTxSet scs)) k p =
     SeenTxSet_Has NewSeenTxSet k p \<and>
   SeenTxSet_Get (SeenTxSet_Reset (seen_calls NewSeenTxSet scs)) k = SeenTxSet_Get NewSeenTxSet k \<and>
   SeenTxSet_Len (SeenTxSet_Reset (seen_calls NewSeenTxSet scs)) =
     SeenTxSet_Len (NewSeenTxSet :: 'k SeenTxSet)"
proof -
  have l: "LRUTxCache_Reset (lru_calls (NewLRUTxCache N) lcs) = (NewLRUTxCache N :: 'k LRUTxCache)"
    using lru_staticSize_calls[of "NewLRUTxCache N :: 'k LRUTxCache" lcs]
    by (simp add: LRUTxCache_Reset_def NewLRUTxCache_def)
  have e: "EvictedTxCache_Reset (ev_calls (NewEvictedTxCache M) ecs)
      = (NewEvictedTxCache M :: 'k EvictedTxCache)"
    using ev_staticSize_calls[of "NewEvictedTxCache M :: 'k EvictedTxCache" ecs]
    by (simp add: EvictedTxCache_Reset_def NewEvictedTxCache_def)
  have s: "SeenTxSet_Reset (seen_calls NewSeenTxSet scs) = (NewSeenTxSet :: 'k SeenTxSet)"
    by (simp add: SeenTxSet_Reset_def NewSeenTxSet_def)
  show ?thesis by (simp only: l e s)
qed

end
